theory Spec2Isabelle
  imports Main "HOL-Library.Word" "HOL-Library.Sublist" "HOL-Library.AList"
begin

unbundle bit_operations_syntax

section \<open>Data model\<close>

text \<open>
  A Python \<open>bytes\<close> value is a list of 8-bit words; iterating it yields the integers
  \<open>uint b\<close>. Python's unbounded integers are \<open>int\<close>; lengths, counts and indices, which
  the program only ever produces with \<open>len\<close>, \<open>count\<close> or \<open>int(_, 2)\<close>, are \<open>nat\<close>.
  Bit strings are Python strings over the characters \<open>0\<close> and \<open>1\<close>.
\<close>

type_synonym byte = "8 word"
type_synonym bytes = "byte list"

text \<open>
  The exceptions the program can raise. The two assertions of the source are told apart
  by their message: \<open>'{} does not fit in {} bits'\<close> in \<open>Packer.pack\<close> and
  \<open>'trying to unpack but no data left'\<close> in \<open>Unpacker.unpack\<close>.
\<close>

datatype error =
    AssertionError_does_not_fit int nat
  | AssertionError_no_data_left
  | ValueError
  | IndexError
  | KeyError

section \<open>Packer\<close>

record Packer =
  buffer :: int
  bit_length :: nat

definition Packer_init :: Packer where
  "Packer_init = \<lparr>buffer = 0, bit_length = 0\<rparr>"

definition pack :: "Packer \<Rightarrow> int \<Rightarrow> nat \<Rightarrow> error + Packer" where
  "pack self content len =
     (let CONTENT_MASK = 2 ^ len - 1 in
      if content AND CONTENT_MASK \<noteq> content
      then Inl (AssertionError_does_not_fit content len)
      else Inr (self\<lparr>buffer := push_bit len (buffer self) OR content,
                      bit_length := bit_length self + len\<rparr>))"

definition BYTEMASK :: int where
  "BYTEMASK = 2 ^ 8 - 1"

text \<open>
  The \<open>while filled_bytes > 0\<close> loop of \<open>flush\<close>; \<open>Suc k\<close> is \<open>filled_bytes\<close>, so
  \<open>shifts = (filled_bytes - 1) * 8 = k * 8\<close>. The masked value lies in \<open>0..255\<close>, so
  \<open>bytes([...])\<close> cannot raise.
\<close>

fun flush_loop :: "int \<Rightarrow> nat \<Rightarrow> bytes \<Rightarrow> bytes" where
  "flush_loop buf 0 packed_bytes = packed_bytes"
| "flush_loop buf (Suc k) packed_bytes =
     (let shifts = k * 8 in
      flush_loop buf k (packed_bytes @ [word_of_int (drop_bit shifts buf AND BYTEMASK)]))"

text \<open>\<open>x or 8\<close> is \<open>x\<close> when \<open>x\<close> is non-zero and \<open>8\<close> otherwise.\<close>

definition pad_bits_of :: "nat \<Rightarrow> nat" where
  "pad_bits_of bl = 8 - (if bl mod 8 \<noteq> 0 then bl mod 8 else 8)"

definition flush :: "Packer \<Rightarrow> bytes \<times> Packer" where
  "flush self =
     (let pad_bits = pad_bits_of (bit_length self);
          buf = push_bit pad_bits (buffer self);
          bl = bit_length self + pad_bits;
          filled_bytes = bl div 8;
          packed_bytes = flush_loop buf filled_bytes []
      in (packed_bytes, self\<lparr>buffer := 0, bit_length := 0\<rparr>))"

section \<open>Unpacker\<close>

text \<open>
  \<open>format(b, '08b')\<close> for a byte: its eight binary digits, most significant first.
  \<open>bin_digits w v\<close> is the general form, the \<open>w\<close> low bits of \<open>v\<close> as a digit string.
\<close>

definition bit_char :: "bool \<Rightarrow> char" where
  "bit_char b = (if b then CHR ''1'' else CHR ''0'')"

definition bin_digits :: "nat \<Rightarrow> int \<Rightarrow> string" where
  "bin_digits w v = map (\<lambda>i. bit_char (bit v i)) (rev [0..<w])"

definition format_08b :: "byte \<Rightarrow> string" where
  "format_08b b = bin_digits 8 (uint b)"

record Unpacker =
  data :: bytes
  data_bit_string :: string
  bit_index :: nat

definition Unpacker_init :: "bytes \<Rightarrow> Unpacker" where
  "Unpacker_init d =
     \<lparr>data = d, data_bit_string = concat (map format_08b d), bit_index = 0\<rparr>"

definition is_empty :: "Unpacker \<Rightarrow> bool" where
  "is_empty self = (bit_index self \<ge> length (data_bit_string self))"

text \<open>The slice \<open>s[i:i + length]\<close> is \<open>take length (drop i s)\<close>: it is cut at the end of \<open>s\<close>.\<close>

definition unpack :: "Unpacker \<Rightarrow> nat \<Rightarrow> error + (string \<times> Unpacker)" where
  "unpack self len =
     (if is_empty self then Inl AssertionError_no_data_left
      else (let bit_string = take len (drop (bit_index self) (data_bit_string self))
            in Inr (bit_string, self\<lparr>bit_index := bit_index self + len\<rparr>)))"

section \<open>Node\<close>

text \<open>
  A \<open>Node\<close> object: \<open>content\<close> is \<open>None\<close> or a symbol, \<open>left\<close> and \<open>right\<close> are
  \<open>None\<close> or a node. \<open>Node(occurences, symbol)\<close> is
  \<open>Node (Some symbol) occurences None None\<close>.
\<close>

datatype Node =
  Node (content: "byte option") (occurences: nat) (left: "Node option") (right: "Node option")

text \<open>
  A Python \<open>dict\<close> is an association list in insertion order: assigning to a key that
  is present replaces its value in place, a new key goes to the end (\<open>AList.update\<close>).
  \<open>d.update(other)\<close> assigns the items of \<open>other\<close> in their order.
\<close>

definition dict_update :: "('k \<times> 'v) list \<Rightarrow> ('k \<times> 'v) list \<Rightarrow> ('k \<times> 'v) list" where
  "dict_update d other = fold (\<lambda>(k, v). AList.update k v) other d"

text \<open>
  \<open>Node.to_dict\<close>. The argument \<open>path\<close> is the string after \<open>if not path: path = ''\<close>,
  which turns the default \<open>None\<close> into the empty string and leaves every string as it is.
\<close>

fun to_dict :: "Node \<Rightarrow> string \<Rightarrow> (byte \<times> string) list" where
  "to_dict (Node c occ l r) path =
     (case c of
        Some symbol \<Rightarrow> [(symbol, path)]
      | None \<Rightarrow>
          (let left_dict = (case l of Some ln \<Rightarrow> to_dict ln (path @ ''0'') | None \<Rightarrow> []);
               right_dict = (case r of Some rn \<Rightarrow> to_dict rn (path @ ''1'') | None \<Rightarrow> [])
           in dict_update left_dict right_dict))"

section \<open>HuffmanTree\<close>

text \<open>
  \<open>min(nodes, key=lambda n: n.occurences)\<close>: the first node with the least count;
  \<open>ValueError\<close> on an empty list.
\<close>

fun py_min :: "Node list \<Rightarrow> error + Node" where
  "py_min [] = Inl ValueError"
| "py_min (n # ns) =
     Inr (fold (\<lambda>x best. if occurences x < occurences best then x else best) ns n)"

text \<open>
  \<open>nodes.remove(x)\<close>: removes the first element equal to \<open>x\<close>; \<open>ValueError\<close> when there
  is none. Nodes compare by identity in the source; the first node equal in value to the
  result of \<open>min\<close> is that very result, since an equal node has the same count and
  \<open>min\<close> returns the first with the least count.
\<close>

definition list_remove :: "Node list \<Rightarrow> Node \<Rightarrow> error + Node list" where
  "list_remove nodes x = (if x \<in> set nodes then Inr (remove1 x nodes) else Inl ValueError)"

text \<open>The \<open>while len(nodes) > 1\<close> loop of \<open>HuffmanTree.__init__\<close>.\<close>

function HuffmanTree_loop :: "Node list \<Rightarrow> error + Node list" where
  "HuffmanTree_loop nodes =
     (if length nodes > 1 then
        (case py_min nodes of Inl e \<Rightarrow> Inl e | Inr node1 \<Rightarrow>
         (case list_remove nodes node1 of Inl e \<Rightarrow> Inl e | Inr nodes1 \<Rightarrow>
          (case py_min nodes1 of Inl e \<Rightarrow> Inl e | Inr node2 \<Rightarrow>
           (case list_remove nodes1 node2 of Inl e \<Rightarrow> Inl e | Inr nodes2 \<Rightarrow>
              HuffmanTree_loop
                (nodes2 @ [Node None (occurences node1 + occurences node2)
                                (Some node1) (Some node2)])))))
      else Inr nodes)"
  by pat_completeness auto
termination
proof (relation "measure length")
  show "wf (measure length)" by simp
next
  fix nodes :: "Node list" and node1 nodes1 node2 nodes2
  assume more: "1 < length nodes"
    and "list_remove nodes node1 = Inr nodes1"
    and "list_remove nodes1 node2 = Inr nodes2"
  then have "node1 \<in> set nodes" "nodes1 = remove1 node1 nodes"
    "node2 \<in> set nodes1" "nodes2 = remove1 node2 nodes1"
    by (auto simp: list_remove_def split: if_splits)
  then have "length nodes1 = length nodes - 1" "length nodes2 = length nodes1 - 1"
    by (simp_all add: length_remove1)
  with more show "(nodes2 @ [Node None (occurences node1 + occurences node2) (Some node1) (Some node2)],
      nodes) \<in> measure length"
    by simp
qed

declare HuffmanTree_loop.simps [simp del]

record HuffmanTree =
  data :: bytes
  root :: Node

text \<open>
  \<open>HuffmanTree.__init__\<close>. The argument \<open>symbols\<close> is the order in which
  \<open>for symbol in symbols\<close> goes through \<open>set(data)\<close>: Python leaves it unspecified, so
  it is a parameter, and \<open>set_iteration\<close> says what every such order satisfies.
  \<open>nodes[0]\<close> raises \<open>IndexError\<close> on an empty list.
\<close>

definition set_iteration :: "byte list \<Rightarrow> bytes \<Rightarrow> bool" where
  "set_iteration symbols d = (distinct symbols \<and> set symbols = set d)"

definition HuffmanTree_init :: "byte list \<Rightarrow> bytes \<Rightarrow> error + HuffmanTree" where
  "HuffmanTree_init symbols d =
     (let nodes = map (\<lambda>symbol. Node (Some symbol) (count_list d symbol) None None) symbols
      in case HuffmanTree_loop nodes of
           Inl e \<Rightarrow> Inl e
         | Inr nodes' \<Rightarrow>
             (case nodes' of [] \<Rightarrow> Inl IndexError | n # _ \<Rightarrow> Inr \<lparr>data = d, root = n\<rparr>))"

definition HuffmanTree_to_dict :: "HuffmanTree \<Rightarrow> (byte \<times> string) list" where
  "HuffmanTree_to_dict self = to_dict (root self) []"

text \<open>
  \<open>int(s, 2)\<close> on a string of binary digits; \<open>ValueError\<close> on the empty string. The
  program only passes strings over \<open>0\<close> and \<open>1\<close>; any other string is \<open>ValueError\<close> here.
\<close>

definition int_base2 :: "string \<Rightarrow> error + nat" where
  "int_base2 s =
     (if s = [] \<or> \<not> list_all (\<lambda>c. c = CHR ''0'' \<or> c = CHR ''1'') s then Inl ValueError
      else Inr (foldl (\<lambda>acc c. 2 * acc + (if c = CHR ''1'' then 1 else 0)) 0 s))"

text \<open>The loop \<open>for symbol, code in coding_dict.items()\<close> of \<open>compress\<close>.\<close>

fun pack_items :: "Packer \<Rightarrow> (byte \<times> string) list \<Rightarrow> error + Packer" where
  "pack_items packer [] = Inr packer"
| "pack_items packer ((symbol, code) # items) =
     (case pack packer (uint symbol) 8 of Inl e \<Rightarrow> Inl e | Inr p1 \<Rightarrow>
      (case pack p1 (int (length code)) 8 of Inl e \<Rightarrow> Inl e | Inr p2 \<Rightarrow>
       (case int_base2 code of Inl e \<Rightarrow> Inl e | Inr code_value \<Rightarrow>
        (case pack p2 (int code_value) (length code) of Inl e \<Rightarrow> Inl e | Inr p3 \<Rightarrow>
           pack_items p3 items))))"

text \<open>
  The loop \<open>for symbol in self.data\<close> of \<open>compress\<close>; \<open>coding_dict[symbol]\<close> raises
  \<open>KeyError\<close> for a missing key.
\<close>

fun pack_data :: "(byte \<times> string) list \<Rightarrow> Packer \<Rightarrow> bytes \<Rightarrow> error + Packer" where
  "pack_data coding_dict packer [] = Inr packer"
| "pack_data coding_dict packer (symbol # rest) =
     (case map_of coding_dict symbol of None \<Rightarrow> Inl KeyError | Some code \<Rightarrow>
      (case int_base2 code of Inl e \<Rightarrow> Inl e | Inr code_value \<Rightarrow>
       (case pack packer (int code_value) (length code) of Inl e \<Rightarrow> Inl e | Inr p \<Rightarrow>
          pack_data coding_dict p rest)))"

definition compress :: "HuffmanTree \<Rightarrow> error + bytes" where
  "compress self =
     (let packer = Packer_init;
          coding_dict = HuffmanTree_to_dict self
      in case pack packer (int (length coding_dict) - 1) 8 of Inl e \<Rightarrow> Inl e | Inr p1 \<Rightarrow>
         (case pack_items p1 coding_dict of Inl e \<Rightarrow> Inl e | Inr p2 \<Rightarrow>
          (case pack p2 (int (length (HuffmanTree.data self))) 32 of Inl e \<Rightarrow> Inl e | Inr p3 \<Rightarrow>
           (case pack_data coding_dict p3 (HuffmanTree.data self) of Inl e \<Rightarrow> Inl e | Inr p4 \<Rightarrow>
              Inr (fst (flush p4))))))"

text \<open>
  The \<open>compress\<close> action of the program: \<open>tree = HuffmanTree(input)\<close>, then
  \<open>tree.compress()\<close> is written out. An exception leaves nothing written.
\<close>

definition main_compress :: "byte list \<Rightarrow> bytes \<Rightarrow> error + bytes" where
  "main_compress symbols d =
     (case HuffmanTree_init symbols d of Inl e \<Rightarrow> Inl e | Inr tree \<Rightarrow> compress tree)"

section \<open>decompress\<close>

text \<open>
  The \<open>while codes_to_read\<close> loop. \<open>symbol\<close> is read from at most eight digits, so
  \<open>bytes([symbol])\<close> cannot raise.
\<close>

fun read_codes ::
  "nat \<Rightarrow> Unpacker \<Rightarrow> (string \<times> bytes) list \<Rightarrow> error + ((string \<times> bytes) list \<times> Unpacker)" where
  "read_codes 0 unpacker coding_dict = Inr (coding_dict, unpacker)"
| "read_codes (Suc codes_to_read) unpacker coding_dict =
     (case unpack unpacker 8 of Inl e \<Rightarrow> Inl e | Inr (s1, u1) \<Rightarrow>
      (case int_base2 s1 of Inl e \<Rightarrow> Inl e | Inr symbol \<Rightarrow>
       (case unpack u1 8 of Inl e \<Rightarrow> Inl e | Inr (s2, u2) \<Rightarrow>
        (case int_base2 s2 of Inl e \<Rightarrow> Inl e | Inr code_length \<Rightarrow>
         (case unpack u2 code_length of Inl e \<Rightarrow> Inl e | Inr (code, u3) \<Rightarrow>
            read_codes codes_to_read u3 (AList.update code [of_nat symbol] coding_dict))))))"

text \<open>
  Everything \<open>decompress\<close> reads before the payload: the number of codes, the codes and
  \<open>symbols_to_read\<close>.
\<close>

definition decompress_header ::
  "bytes \<Rightarrow> error + ((string \<times> bytes) list \<times> Unpacker \<times> nat)" where
  "decompress_header d =
     (let unpacker = Unpacker_init d
      in case unpack unpacker 8 of Inl e \<Rightarrow> Inl e | Inr (s0, u0) \<Rightarrow>
         (case int_base2 s0 of Inl e \<Rightarrow> Inl e | Inr n \<Rightarrow>
          (let codes_to_read = n + 1
           in case read_codes codes_to_read u0 [] of Inl e \<Rightarrow> Inl e | Inr (coding_dict, u1) \<Rightarrow>
              (case unpack u1 32 of Inl e \<Rightarrow> Inl e | Inr (s1, u2) \<Rightarrow>
               (case int_base2 s1 of Inl e \<Rightarrow> Inl e | Inr symbols_to_read \<Rightarrow>
                  Inr (coding_dict, u2, symbols_to_read))))))"

text \<open>
  One pass through the body of \<open>while symbols_to_read\<close>, on the state
  (\<open>unpacker\<close>, \<open>symbols_to_read\<close>, \<open>decompressed\<close>, \<open>bit_string\<close>).
\<close>

type_synonym decode_state = "Unpacker \<times> nat \<times> bytes \<times> string"

definition decode_body ::
  "(string \<times> bytes) list \<Rightarrow> decode_state \<Rightarrow> error + decode_state" where
  "decode_body coding_dict st =
     (case st of (unpacker, symbols_to_read, decompressed, bit_string) \<Rightarrow>
      (case unpack unpacker 1 of Inl e \<Rightarrow> Inl e | Inr (s, u') \<Rightarrow>
       (let bit_string' = bit_string @ s
        in case map_of coding_dict bit_string' of
             Some symbol \<Rightarrow> Inr (u', symbols_to_read - 1, decompressed @ symbol, [])
           | None \<Rightarrow> Inr (u', symbols_to_read, decompressed, bit_string'))))"

function decode_loop :: "(string \<times> bytes) list \<Rightarrow> decode_state \<Rightarrow> error + bytes" where
  "decode_loop coding_dict (unpacker, symbols_to_read, decompressed, bit_string) =
     (if symbols_to_read \<noteq> 0 then
        (case decode_body coding_dict (unpacker, symbols_to_read, decompressed, bit_string) of
           Inl e \<Rightarrow> Inl e
         | Inr st' \<Rightarrow> decode_loop coding_dict st')
      else Inr decompressed)"
  by pat_completeness auto
termination
proof (relation "measure (\<lambda>(coding_dict, u, n, out, bs). length (data_bit_string u) - bit_index u)")
  show "wf (measure (\<lambda>(coding_dict, u, n, out, bs). length (data_bit_string u) - bit_index u))"
    by simp
next
  fix coding_dict unpacker symbols_to_read decompressed bit_string st'
  assume "decode_body coding_dict (unpacker, symbols_to_read, decompressed, bit_string) = Inr st'"
  then show "((coding_dict, st'), coding_dict, unpacker, symbols_to_read, decompressed, bit_string)
      \<in> measure (\<lambda>(coding_dict, u, n, out, bs). length (data_bit_string u) - bit_index u)"
    by (cases st')
      (auto simp: decode_body_def unpack_def is_empty_def Let_def split: if_splits option.splits)
qed

declare decode_loop.simps [simp del]

definition decompress :: "bytes \<Rightarrow> error + bytes" where
  "decompress d =
     (case decompress_header d of
        Inl e \<Rightarrow> Inl e
      | Inr (coding_dict, unpacker, symbols_to_read) \<Rightarrow>
          decode_loop coding_dict (unpacker, symbols_to_read, [], []))"

section \<open>Vocabulary of the properties\<close>

text \<open>
  The definitions of this section are not code of the program: they name what the
  properties below talk about.

  The content of a packer, read as the bit string of its \<open>bit_length\<close> low buffer
  bits, most significant first; the bits an unpacker has not read yet, and how many they
  are.
\<close>

definition Packer_bits :: "Packer \<Rightarrow> string" where
  "Packer_bits p = bin_digits (bit_length p) (buffer p)"

definition unread :: "Unpacker \<Rightarrow> string" where
  "unread u = drop (bit_index u) (data_bit_string u)"

definition unread_bits :: "Unpacker \<Rightarrow> nat" where
  "unread_bits u = length (data_bit_string u) - bit_index u"

text \<open>
  Strings of binary digits, and the number such a string denotes (the value \<open>int(s, 2)\<close>
  returns for it).
\<close>

definition binary :: "string \<Rightarrow> bool" where
  "binary s = list_all (\<lambda>c. c = CHR ''0'' \<or> c = CHR ''1'') s"

definition bin_value :: "string \<Rightarrow> nat" where
  "bin_value s = foldl (\<lambda>acc c. 2 * acc + (if c = CHR ''1'' then 1 else 0)) 0 s"

text \<open>
  The shape of a node, following \<open>to_dict\<close>: a node with a content counts as a leaf,
  whatever its children; the symbols at the leaves, their number, the height, and
  whether every node without content has both children.
\<close>

fun node_symbols :: "Node \<Rightarrow> byte set" where
  "node_symbols (Node c occ l r) =
     (case c of
        Some symbol \<Rightarrow> {symbol}
      | None \<Rightarrow> (case l of Some ln \<Rightarrow> node_symbols ln | None \<Rightarrow> {}) \<union>
                (case r of Some rn \<Rightarrow> node_symbols rn | None \<Rightarrow> {}))"

fun leaf_count :: "Node \<Rightarrow> nat" where
  "leaf_count (Node c occ l r) =
     (case c of
        Some symbol \<Rightarrow> 1
      | None \<Rightarrow> (case l of Some ln \<Rightarrow> leaf_count ln | None \<Rightarrow> 0) +
                (case r of Some rn \<Rightarrow> leaf_count rn | None \<Rightarrow> 0))"

fun height :: "Node \<Rightarrow> nat" where
  "height (Node c occ l r) =
     (case c of
        Some symbol \<Rightarrow> 0
      | None \<Rightarrow> Suc (max (case l of Some ln \<Rightarrow> height ln | None \<Rightarrow> 0)
                         (case r of Some rn \<Rightarrow> height rn | None \<Rightarrow> 0)))"

fun proper :: "Node \<Rightarrow> bool" where
  "proper (Node c occ l r) =
     (case c of
        Some symbol \<Rightarrow> True
      | None \<Rightarrow> (case l of Some ln \<Rightarrow> proper ln | None \<Rightarrow> False) \<and>
                (case r of Some rn \<Rightarrow> proper rn | None \<Rightarrow> False))"

text \<open>
  What the encoder and the decoder need of a code table: one entry per symbol, between
  1 and 256 entries, every code a non-empty string of fewer than 256 binary digits, and
  no code of one symbol a prefix of the code of another.
\<close>

definition prefix_free :: "(byte \<times> string) list \<Rightarrow> bool" where
  "prefix_free dict =
     list_all (\<lambda>(s1, c1). list_all (\<lambda>(s2, c2). s1 = s2 \<or> \<not> prefix c1 c2) dict) dict"

definition code_table_ok :: "(byte \<times> string) list \<Rightarrow> bool" where
  "code_table_ok dict =
     (distinct (map fst dict) \<and> dict \<noteq> [] \<and> length dict \<le> 256 \<and>
      list_all (\<lambda>(s, c). c \<noteq> [] \<and> binary c \<and> length c < 256) dict \<and>
      prefix_free dict)"

text \<open>
  The bits of the container: for each table entry the symbol and the code length in 8
  bits each and then the digits of the code; the code of a symbol; the codes of the
  bytes of an input; the whole blob before padding.
\<close>

definition header_bits :: "(byte \<times> string) list \<Rightarrow> string" where
  "header_bits dict =
     concat (map (\<lambda>(s, c). bin_digits 8 (uint s) @ bin_digits 8 (int (length c)) @ c) dict)"

definition code_of :: "(byte \<times> string) list \<Rightarrow> byte \<Rightarrow> string" where
  "code_of dict s = (case map_of dict s of Some c \<Rightarrow> c | None \<Rightarrow> [])"

definition payload_bits :: "(byte \<times> string) list \<Rightarrow> bytes \<Rightarrow> string" where
  "payload_bits dict d = concat (map (code_of dict) d)"

definition blob_bits :: "(byte \<times> string) list \<Rightarrow> bytes \<Rightarrow> string" where
  "blob_bits dict d =
     bin_digits 8 (int (length dict) - 1) @ header_bits dict @
     bin_digits 32 (int (length d)) @ payload_bits dict d"

text \<open>
  The code-to-symbol table that \<open>decompress\<close> ends up with when it reads the entries of
  a code table in their order.
\<close>

definition decoder_dict ::
  "(byte \<times> string) list \<Rightarrow> (string \<times> bytes) list \<Rightarrow> (string \<times> bytes) list" where
  "decoder_dict dict acc = fold (\<lambda>(s, c). AList.update c [s]) dict acc"

text \<open>
  The states the payload loop of \<open>decompress\<close> goes through from a state \<open>s\<close>: each
  step is one pass through the body, taken while \<open>symbols_to_read\<close> is not zero.
\<close>

inductive loop_reaches :: "(string \<times> bytes) list \<Rightarrow> decode_state \<Rightarrow> decode_state \<Rightarrow> bool"
  for coding_dict :: "(string \<times> bytes) list" and s :: decode_state where
  start: "loop_reaches coding_dict s s"
| step: "loop_reaches coding_dict s (u, n, out, bs) \<Longrightarrow> n \<noteq> 0 \<Longrightarrow>
         decode_body coding_dict (u, n, out, bs) = Inr t \<Longrightarrow> loop_reaches coding_dict s t"

section \<open>Bit-level facts about the packer\<close>

lemma mask_eq: "(2::int) ^ w - 1 = mask w" by (simp add: mask_eq_exp_minus_1)

lemma fits_iff: "(v AND (2 ^ w - 1) = v) \<longleftrightarrow> (\<forall>i\<ge>w. \<not> bit (v::int) i)"
proof -
  have "(take_bit w v = v) \<longleftrightarrow> (\<forall>i\<ge>w. \<not> bit v i)"
  proof
    assume "take_bit w v = v"
    then have "bit v i = (i < w \<and> bit v i)" for i
      by (metis bit_take_bit_iff)
    then show "\<forall>i\<ge>w. \<not> bit v i"
      by (metis not_less)
  next
    assume "\<forall>i\<ge>w. \<not> bit v i"
    then have "bit (take_bit w v) i = bit v i" for i
      by (cases "i < w") (simp_all add: bit_take_bit_iff)
    then show "take_bit w v = v"
      by (rule bit_eqI)
  qed
  then show ?thesis by (simp only: mask_eq take_bit_eq_mask)
qed

lemma fits_iff2: "((v::int) AND (2 ^ w - 1) = v) \<longleftrightarrow> (0 \<le> v \<and> v < 2 ^ w)"
  using take_bit_int_eq_self_iff [of w v] by (simp only: mask_eq take_bit_eq_mask)

lemma bin_digits_add: "bin_digits (a + b) v = bin_digits a (drop_bit b v) @ bin_digits b v"
proof -
  have "[0..<a + b] = [0..<b] @ map (\<lambda>i. i + b) [0..<a]"
    by (metis add.commute map_add_upt upt_add_eq_append zero_le)
  then show ?thesis
    by (simp add: bin_digits_def rev_map bit_drop_bit_eq comp_def add.commute)
qed

lemma bin_digits_take: "bin_digits w (take_bit w v) = bin_digits w v"
  by (simp add: bin_digits_def bit_take_bit_iff)

lemma length_bin_digits: "length (bin_digits w v) = w"
  by (simp add: bin_digits_def)

lemma pack_Inr_iff:
  "pack p v w = Inr p' \<longleftrightarrow>
     take_bit w v = v \<and> p' = p\<lparr>buffer := push_bit w (buffer p) OR v, bit_length := bit_length p + w\<rparr>"
  unfolding pack_def Let_def mask_eq take_bit_eq_mask by auto

lemma pack_digits:
  assumes "pack p v w = Inr p'"
  shows "bin_digits (bit_length p') (buffer p') = bin_digits (bit_length p) (buffer p) @ bin_digits w v"
proof -
  from assms have fit: "take_bit w v = v"
    and p': "p' = p\<lparr>buffer := push_bit w (buffer p) OR v, bit_length := bit_length p + w\<rparr>"
    by (simp_all add: pack_Inr_iff)
  have "\<forall>i\<ge>w. \<not> bit v i"
    using fit by (metis bit_take_bit_iff not_less)
  then have hi: "drop_bit w v = 0"
    by (intro bit_eqI) (simp add: bit_drop_bit_eq)
  have lo: "bin_digits w (push_bit w (buffer p) OR v) = bin_digits w v"
    by (simp add: bin_digits_def bit_or_iff bit_push_bit_iff)
  show ?thesis
    by (simp add: p' bin_digits_add hi lo drop_bit_push_bit)
qed

lemma BYTEMASK_mask: "BYTEMASK = mask 8"
  by (simp add: BYTEMASK_def mask_eq_exp_minus_1)

lemma flush_loop_digits:
  "concat (map format_08b (flush_loop buf k acc)) = concat (map format_08b acc) @ bin_digits (8 * k) buf"
proof (induction k arbitrary: acc)
  case 0
  then show ?case by (simp add: bin_digits_def)
next
  case (Suc k)
  have "format_08b (word_of_int (drop_bit (k * 8) buf AND BYTEMASK)) = bin_digits 8 (drop_bit (k * 8) buf)"
    by (simp add: format_08b_def BYTEMASK_mask bin_digits_def bit_uint_iff bit_word_of_int_iff bit_and_iff bit_mask_iff cong: map_cong)
  moreover have "bin_digits (8 * Suc k) buf = bin_digits 8 (drop_bit (k * 8) buf) @ bin_digits (8 * k) buf"
    using bin_digits_add [of 8 "k * 8" buf] by (simp add: mult.commute add.commute)
  ultimately show ?case
    by (simp add: Suc.IH)
qed

lemma length_flush_loop: "length (flush_loop buf k acc) = length acc + k"
  by (induction k arbitrary: acc) simp_all

lemma pad_bits_of_eq: "pad_bits_of L = (8 - L mod 8) mod 8"
  by (simp add: pad_bits_of_def)

lemma pad_aligned: "(L + pad_bits_of L) mod 8 = 0"
  unfolding pad_bits_of_def by presburger

lemma bin_digits_push: "bin_digits (L + n) (push_bit n v) = bin_digits L v @ replicate n (CHR ''0'')"
proof -
  have "map (\<lambda>i. bit_char (bit (push_bit n v) i)) (rev [0..<n]) = map (\<lambda>i. CHR ''0'') (rev [0..<n])"
    by (rule map_cong) (auto simp: bit_push_bit_iff bit_char_def)
  then have "bin_digits n (push_bit n v) = replicate n (CHR ''0'')"
    by (simp add: bin_digits_def map_replicate_const)
  then show ?thesis by (simp add: bin_digits_add drop_bit_push_bit)
qed

lemma flush_digits:
  "concat (map format_08b (fst (flush p))) =
     bin_digits (bit_length p) (buffer p) @ replicate (pad_bits_of (bit_length p)) (CHR ''0'')"
proof -
  have "8 * ((bit_length p + pad_bits_of (bit_length p)) div 8) = bit_length p + pad_bits_of (bit_length p)"
    using pad_aligned [of "bit_length p"] by presburger
  then show ?thesis
    by (simp add: flush_def Let_def flush_loop_digits bin_digits_push)
qed

lemma flush_length: "8 * length (fst (flush p)) = bit_length p + pad_bits_of (bit_length p)"
proof -
  have "8 * ((bit_length p + pad_bits_of (bit_length p)) div 8) = bit_length p + pad_bits_of (bit_length p)"
    using pad_aligned [of "bit_length p"] by presburger
  then show ?thesis
    by (simp add: flush_def Let_def length_flush_loop)
qed

lemma list_remove_length:
  "list_remove nodes x = Inr nodes' \<Longrightarrow> Suc (length nodes') = length nodes"
proof -
  assume "list_remove nodes x = Inr nodes'"
  then have "x \<in> set nodes" and "nodes' = remove1 x nodes"
    by (auto simp: list_remove_def split: if_splits)
  then have "length nodes' = length nodes - 1" and "length nodes > 0"
    by (auto simp: length_remove1)
  then show ?thesis by simp
qed

section \<open>dict_update\<close>

lemma set_update_subset: "set (AList.update k v al) \<subseteq> insert (k, v) (set al)"
  by (induction al) auto

lemma dict_update_Nil [simp]: "dict_update d [] = d"
  by (simp add: dict_update_def)

lemma dict_update_Cons: "dict_update d ((k, v) # other) = dict_update (AList.update k v d) other"
  by (simp add: dict_update_def)

lemma set_dict_update: "set (dict_update d other) \<subseteq> set d \<union> set other"
proof (induction other arbitrary: d)
  case Nil
  then show ?case by simp
next
  case (Cons kv other)
  obtain k v where kv: "kv = (k, v)" by (cases kv)
  have "set (dict_update (AList.update k v d) other) \<subseteq> set (AList.update k v d) \<union> set other"
    by (rule Cons.IH)
  also have "\<dots> \<subseteq> insert (k, v) (set d) \<union> set other"
    using set_update_subset [of k v d] by blast
  finally show ?case by (auto simp: kv dict_update_Cons)
qed

lemma keys_dict_update: "fst ` set (dict_update d other) = fst ` set d \<union> fst ` set other"
proof (induction other arbitrary: d)
  case Nil
  then show ?case by simp
next
  case (Cons kv other)
  obtain k v where kv: "kv = (k, v)" by (cases kv)
  show ?case
    by (auto simp: kv dict_update_Cons Cons.IH dom_update)
qed

lemma distinct_dict_update:
  "distinct (map fst d) \<Longrightarrow> distinct (map fst (dict_update d other))"
proof (induction other arbitrary: d)
  case Nil
  then show ?case by simp
next
  case (Cons kv other)
  obtain k v where kv: "kv = (k, v)" by (cases kv)
  from Cons.prems have "distinct (map fst (AList.update k v d))"
    by (rule distinct_update)
  then show ?case
    by (simp add: kv dict_update_Cons Cons.IH)
qed

section \<open>to_dict\<close>

lemma to_dict_keys: "fst ` set (to_dict n p) = node_symbols n"
proof (induction n arbitrary: p)
  case (Node c occ l r)
  show ?case
  proof (cases c)
    case (Some s)
    then show ?thesis by simp
  next
    case None
    have "fst ` set (case l of Some ln \<Rightarrow> to_dict ln (p @ ''0'') | None \<Rightarrow> []) =
        (case l of Some ln \<Rightarrow> node_symbols ln | None \<Rightarrow> {})"
      using Node.IH(1) by (cases l) auto
    moreover have "fst ` set (case r of Some rn \<Rightarrow> to_dict rn (p @ ''1'') | None \<Rightarrow> []) =
        (case r of Some rn \<Rightarrow> node_symbols rn | None \<Rightarrow> {})"
      using Node.IH(2) by (cases r) auto
    ultimately show ?thesis
      using None by (simp add: keys_dict_update)
  qed
qed

lemma to_dict_distinct: "distinct (map fst (to_dict n p))"
proof (induction n arbitrary: p)
  case (Node c occ l r)
  show ?case
  proof (cases c)
    case (Some s)
    then show ?thesis by simp
  next
    case None
    have "distinct (map fst (case l of Some ln \<Rightarrow> to_dict ln (p @ ''0'') | None \<Rightarrow> []))"
      using Node.IH(1) by (cases l) auto
    then show ?thesis
      using None by (simp add: distinct_dict_update)
  qed
qed

lemma to_dict_entry_cases:
  assumes "(s, c) \<in> set (to_dict (Node None occ l r) p)"
  shows "(\<exists>ln. l = Some ln \<and> (s, c) \<in> set (to_dict ln (p @ ''0''))) \<or>
         (\<exists>rn. r = Some rn \<and> (s, c) \<in> set (to_dict rn (p @ ''1'')))"
proof -
  define L where "L = (case l of Some ln \<Rightarrow> to_dict ln (p @ ''0'') | None \<Rightarrow> [])"
  define R where "R = (case r of Some rn \<Rightarrow> to_dict rn (p @ ''1'') | None \<Rightarrow> [])"
  from assms have "(s, c) \<in> set (dict_update L R)"
    by (simp add: L_def R_def)
  then have "(s, c) \<in> set L \<union> set R"
    using set_dict_update [of L R] by blast
  then show ?thesis
    unfolding L_def R_def
    by (auto split: option.splits)
qed

lemma to_dict_path: "(s, c) \<in> set (to_dict n p) \<Longrightarrow> prefix p c"
proof (induction n arbitrary: p)
  case (Node cn occ l r)
  show ?case
  proof (cases cn)
    case (Some s')
    with Node.prems show ?thesis by simp
  next
    case None
    with Node.prems consider
      ln where "l = Some ln" "(s, c) \<in> set (to_dict ln (p @ ''0''))"
      | rn where "r = Some rn" "(s, c) \<in> set (to_dict rn (p @ ''1''))"
      using to_dict_entry_cases by blast
    then show ?thesis
    proof cases
      case 1
      then have "prefix (p @ ''0'') c" using Node.IH(1) by auto
      then show ?thesis using append_prefixD by blast
    next
      case 2
      then have "prefix (p @ ''1'') c" using Node.IH(2) by auto
      then show ?thesis using append_prefixD by blast
    qed
  qed
qed

lemma to_dict_inner_nonempty:
  assumes "(s, c) \<in> set (to_dict (Node None occ l r) p)"
  shows "length p < length c"
proof -
  from assms have "prefix (p @ ''0'') c \<or> prefix (p @ ''1'') c"
    using to_dict_entry_cases to_dict_path by blast
  then show ?thesis
    by (auto dest!: prefix_length_le)
qed

lemma to_dict_prefix_free:
  "(s1, c1) \<in> set (to_dict n p) \<Longrightarrow> (s2, c2) \<in> set (to_dict n p) \<Longrightarrow> s1 \<noteq> s2 \<Longrightarrow>
     \<not> prefix c1 c2"
proof (induction n arbitrary: p)
  case (Node cn occ l r)
  show ?case
  proof (cases cn)
    case (Some s')
    with Node.prems show ?thesis by simp
  next
    case None
    have diverge: "\<not> prefix x y" if "prefix (p @ [a]) x" "prefix (p @ [b]) y" "a \<noteq> b" for x y a b
    proof
      assume "prefix x y"
      with that(1) have "prefix (p @ [a]) y" by (rule prefix_order.trans)
      with that(2) that(3) show False
        by (auto simp: prefix_def)
    qed
    from None Node.prems(1) consider
      (L1) ln where "l = Some ln" "(s1, c1) \<in> set (to_dict ln (p @ ''0''))"
      | (R1) rn where "r = Some rn" "(s1, c1) \<in> set (to_dict rn (p @ ''1''))"
      using to_dict_entry_cases by blast
    then show ?thesis
    proof cases
      case L1
      from None Node.prems(2) consider
        (L2) "(s2, c2) \<in> set (to_dict ln (p @ ''0''))"
        | (R2) rn where "r = Some rn" "(s2, c2) \<in> set (to_dict rn (p @ ''1''))"
        using to_dict_entry_cases L1(1) by fastforce
      then show ?thesis
      proof cases
        case L2
        with L1 Node.IH(1) Node.prems(3) show ?thesis by auto
      next
        case R2
        with L1 show ?thesis
          using diverge [of "CHR ''0''" c1 "CHR ''1''" c2] to_dict_path by auto
      qed
    next
      case R1
      from None Node.prems(2) consider
        (L2) ln where "l = Some ln" "(s2, c2) \<in> set (to_dict ln (p @ ''0''))"
        | (R2) "(s2, c2) \<in> set (to_dict rn (p @ ''1''))"
        using to_dict_entry_cases R1(1) by fastforce
      then show ?thesis
      proof cases
        case L2
        with R1 show ?thesis
          using diverge [of "CHR ''1''" c1 "CHR ''0''" c2] to_dict_path by auto
      next
        case R2
        with R1 Node.IH(2) Node.prems(3) show ?thesis by auto
      qed
    qed
  qed
qed

lemma to_dict_binary: "(s, c) \<in> set (to_dict n p) \<Longrightarrow> binary p \<Longrightarrow> binary c"
proof (induction n arbitrary: p)
  case (Node cn occ l r)
  show ?case
  proof (cases cn)
    case (Some s')
    with Node.prems show ?thesis by simp
  next
    case None
    with Node.prems(1) consider
      ln where "l = Some ln" "(s, c) \<in> set (to_dict ln (p @ ''0''))"
      | rn where "r = Some rn" "(s, c) \<in> set (to_dict rn (p @ ''1''))"
      using to_dict_entry_cases by blast
    then show ?thesis
    proof cases
      case 1
      moreover have "binary (p @ ''0'')" using Node.prems(2) by (simp add: binary_def)
      ultimately show ?thesis using Node.IH(1) by auto
    next
      case 2
      moreover have "binary (p @ ''1'')" using Node.prems(2) by (simp add: binary_def)
      ultimately show ?thesis using Node.IH(2) by auto
    qed
  qed
qed

lemma to_dict_length: "(s, c) \<in> set (to_dict n p) \<Longrightarrow> length c \<le> length p + height n"
proof (induction n arbitrary: p)
  case (Node cn occ l r)
  show ?case
  proof (cases cn)
    case (Some s')
    with Node.prems show ?thesis by simp
  next
    case None
    with Node.prems(1) consider
      ln where "l = Some ln" "(s, c) \<in> set (to_dict ln (p @ ''0''))"
      | rn where "r = Some rn" "(s, c) \<in> set (to_dict rn (p @ ''1''))"
      using to_dict_entry_cases by blast
    then show ?thesis
    proof cases
      case 1
      then have "length c \<le> length (p @ ''0'') + height ln"
        using Node.IH(1) [of ln "p @ ''0''"] by simp
      with 1 None show ?thesis by simp
    next
      case 2
      then have "length c \<le> length (p @ ''1'') + height rn"
        using Node.IH(2) [of rn "p @ ''1''"] by simp
      with 2 None show ?thesis by simp
    qed
  qed
qed

lemma proper_height: "proper n \<Longrightarrow> height n < leaf_count n"
proof (induction n)
  case (Node cn occ l r)
  show ?case
  proof (cases cn)
    case (Some s')
    then show ?thesis by simp
  next
    case None
    with Node.prems obtain ln rn where lr: "l = Some ln" "r = Some rn" "proper ln" "proper rn"
      by (auto split: option.splits)
    then have "height ln < leaf_count ln" "height rn < leaf_count rn"
      using Node.IH by auto
    with None lr show ?thesis by simp
  qed
qed

section \<open>The tree that HuffmanTree builds\<close>

lemma fold_min_in: "fold (\<lambda>x best. if occurences x < occurences best then x else best) ns n \<in> set (n # ns)"
proof (induction ns arbitrary: n)
  case Nil
  then show ?case by simp
next
  case (Cons a ns)
  show ?case
    using Cons.IH [of "if occurences a < occurences n then a else n"]
    by (auto split: if_splits)
qed

lemma py_min_in: "nodes \<noteq> [] \<Longrightarrow> \<exists>m. py_min nodes = Inr m \<and> m \<in> set nodes"
  using fold_min_in by (cases nodes) auto

lemma insert_remove1: "x \<in> set xs \<Longrightarrow> insert x (set (remove1 x xs)) = set xs"
  by (induction xs) auto

lemma sum_list_const_one: "sum_list (map (\<lambda>x. Suc 0) xs) = length xs"
  by (induction xs) auto

lemma HuffmanTree_loop_result:
  "nodes \<noteq> [] \<Longrightarrow> \<forall>n\<in>set nodes. proper n \<Longrightarrow>
   \<exists>r. HuffmanTree_loop nodes = Inr [r] \<and> proper r \<and>
       node_symbols r = (\<Union>n\<in>set nodes. node_symbols n) \<and>
       leaf_count r = sum_list (map leaf_count nodes)"
proof (induction nodes rule: HuffmanTree_loop.induct)
  case (1 nodes)
  show ?case
  proof (cases "1 < length nodes")
    case False
    with "1.prems"(1) obtain r where "nodes = [r]"
      by (cases nodes) auto
    with "1.prems"(2) show ?thesis
      by (simp add: HuffmanTree_loop.simps)
  next
    case True
    from "1.prems"(1) obtain node1 where m1: "py_min nodes = Inr node1" and in1: "node1 \<in> set nodes"
      using py_min_in by blast
    define nodes1 where "nodes1 = remove1 node1 nodes"
    have r1: "list_remove nodes node1 = Inr nodes1"
      using in1 by (simp add: list_remove_def nodes1_def)
    have len1: "Suc (length nodes1) = length nodes"
      using r1 by (rule list_remove_length)
    with True have "nodes1 \<noteq> []" by auto
    then obtain node2 where m2: "py_min nodes1 = Inr node2" and in2: "node2 \<in> set nodes1"
      using py_min_in by blast
    define nodes2 where "nodes2 = remove1 node2 nodes1"
    have r2: "list_remove nodes1 node2 = Inr nodes2"
      using in2 by (simp add: list_remove_def nodes2_def)
    define parent where
      "parent = Node None (occurences node1 + occurences node2) (Some node1) (Some node2)"
    have set1: "insert node1 (set nodes1) = set nodes"
      unfolding nodes1_def using in1 by (rule insert_remove1)
    have set2: "insert node2 (set nodes2) = set nodes1"
      unfolding nodes2_def using in2 by (rule insert_remove1)
    have all_proper: "\<forall>n\<in>set (nodes2 @ [parent]). proper n"
      using "1.prems"(2) set1 set2 by (auto simp: parent_def)
    have unf: "HuffmanTree_loop nodes = HuffmanTree_loop (nodes2 @ [parent])"
      using True m1 r1 m2 r2 by (simp add: HuffmanTree_loop.simps [of nodes] parent_def)
    from "1.IH" [OF True m1 r1 m2 r2] all_proper
    obtain r where res: "HuffmanTree_loop (nodes2 @ [parent]) = Inr [r]" "proper r"
      "node_symbols r = (\<Union>n\<in>set (nodes2 @ [parent]). node_symbols n)"
      "leaf_count r = sum_list (map leaf_count (nodes2 @ [parent]))"
      unfolding parent_def by auto
    have syms: "(\<Union>n\<in>set (nodes2 @ [parent]). node_symbols n) = (\<Union>n\<in>set nodes. node_symbols n)"
    proof -
      have "(\<Union>n\<in>set nodes. node_symbols n) =
          node_symbols node1 \<union> (node_symbols node2 \<union> (\<Union>n\<in>set nodes2. node_symbols n))"
        unfolding set1 [symmetric] set2 [symmetric] by simp
      then show ?thesis by (auto simp: parent_def)
    qed
    have cnt: "sum_list (map leaf_count (nodes2 @ [parent])) = sum_list (map leaf_count nodes)"
    proof -
      have "sum_list (map leaf_count nodes) = leaf_count node1 + sum_list (map leaf_count nodes1)"
        unfolding nodes1_def using in1 by (rule sum_list_map_remove1)
      moreover have "sum_list (map leaf_count nodes1) = leaf_count node2 + sum_list (map leaf_count nodes2)"
        unfolding nodes2_def using in2 by (rule sum_list_map_remove1)
      ultimately show ?thesis by (simp add: parent_def)
    qed
    from res syms cnt unf show ?thesis by simp
  qed
qed

lemma HuffmanTree_init_result:
  assumes "symbols \<noteq> []"
  shows "\<exists>r. HuffmanTree_init symbols d = Inr \<lparr>HuffmanTree.data = d, root = r\<rparr> \<and> proper r \<and>
           node_symbols r = set symbols \<and> leaf_count r = length symbols"
proof -
  define nodes where
    "nodes = map (\<lambda>symbol. Node (Some symbol) (count_list d symbol) None None) symbols"
  have ne: "nodes \<noteq> []" using assms by (simp add: nodes_def)
  have pr: "\<forall>n\<in>set nodes. proper n" by (auto simp: nodes_def)
  from HuffmanTree_loop_result [OF ne pr]
  obtain r where r: "HuffmanTree_loop nodes = Inr [r]" "proper r"
    "node_symbols r = (\<Union>n\<in>set nodes. node_symbols n)"
    "leaf_count r = sum_list (map leaf_count nodes)"
    by (elim exE conjE)
  have "(\<Union>n\<in>set nodes. node_symbols n) = set symbols"
    by (auto simp: nodes_def)
  moreover have "sum_list (map leaf_count nodes) = length symbols"
    by (simp add: nodes_def comp_def sum_list_const_one)
  moreover have "HuffmanTree_init symbols d = Inr \<lparr>HuffmanTree.data = d, root = r\<rparr>"
    using r(1) by (simp add: HuffmanTree_init_def nodes_def)
  ultimately show ?thesis using r by auto
qed

lemma length_distinct_bytes: "distinct (symbols :: byte list) \<Longrightarrow> length symbols \<le> 256"
proof -
  assume "distinct symbols"
  then have "length symbols = card (set symbols)" by (simp add: distinct_card)
  also have "\<dots> \<le> card (UNIV :: byte set)" by (rule card_mono) simp_all
  also have "\<dots> = 256" by (simp add: card_word)
  finally show ?thesis .
qed

lemma to_dict_root_ok:
  assumes "proper r" and "2 \<le> leaf_count r" and "leaf_count r \<le> 256"
    and "card (node_symbols r) = leaf_count r"
  shows "code_table_ok (to_dict r [])"
proof -
  obtain cn occ l rr where r: "r = Node cn occ l rr" by (cases r)
  have cn: "cn = None"
  proof (cases cn)
    case (Some s)
    with assms(2) r show ?thesis by simp
  qed simp
  have keys: "distinct (map fst (to_dict r []))" by (rule to_dict_distinct)
  have "length (to_dict r []) = card (fst ` set (to_dict r []))"
    using keys by (metis distinct_card length_map set_map)
  then have len: "length (to_dict r []) = leaf_count r"
    using assms(4) by (simp add: to_dict_keys)
  have entries: "c \<noteq> [] \<and> binary c \<and> length c < 256" if "(s, c) \<in> set (to_dict r [])" for s c
  proof -
    have "length c \<le> height r" using to_dict_length [OF that] by simp
    moreover have "height r < leaf_count r" using assms(1) by (rule proper_height)
    ultimately have "length c < 256" using assms(3) by simp
    moreover have "binary c" using to_dict_binary [OF that] by (simp add: binary_def)
    moreover have "c \<noteq> []" using to_dict_inner_nonempty [of s c occ l rr "[]"] that r cn by auto
    ultimately show ?thesis by simp
  qed
  have pf: "prefix_free (to_dict r [])"
    unfolding prefix_free_def list_all_iff using to_dict_prefix_free [of _ _ r "[]"] by blast
  show ?thesis
    unfolding code_table_ok_def
    using keys len assms(2,3) entries pf by (auto simp: list_all_iff)
qed

lemma HuffmanTree_table:
  assumes "set_iteration symbols d" and "2 \<le> length symbols"
  shows "\<exists>tree. HuffmanTree_init symbols d = Inr tree \<and> HuffmanTree.data tree = d \<and>
           code_table_ok (HuffmanTree_to_dict tree) \<and>
           fst ` set (HuffmanTree_to_dict tree) = set d \<and>
           length (HuffmanTree_to_dict tree) = length symbols"
proof -
  from assms have dist: "distinct symbols" and sd: "set symbols = set d" and ne: "symbols \<noteq> []"
    by (auto simp: set_iteration_def)
  from ne obtain r where r: "HuffmanTree_init symbols d = Inr \<lparr>HuffmanTree.data = d, root = r\<rparr>"
    "proper r" "node_symbols r = set symbols" "leaf_count r = length symbols"
    using HuffmanTree_init_result by blast
  have card: "card (node_symbols r) = leaf_count r"
    using r(3,4) dist by (simp add: distinct_card)
  have "leaf_count r \<le> 256" using r(4) dist length_distinct_bytes by simp
  with r(2) assms(2) r(4) card have ok: "code_table_ok (to_dict r [])"
    by (intro to_dict_root_ok) simp_all
  have "length (to_dict r []) = card (fst ` set (to_dict r []))"
    using to_dict_distinct [of r "[]"] by (metis distinct_card length_map set_map)
  then have "length (to_dict r []) = length symbols"
    using card r(4) by (simp add: to_dict_keys)
  with r ok sd show ?thesis
    by (simp add: HuffmanTree_to_dict_def to_dict_keys)
qed

section \<open>Binary digit strings\<close>

lemma bin_value_Nil [simp]: "bin_value [] = 0"
  by (simp add: bin_value_def)

lemma bin_value_snoc: "bin_value (s @ [c]) = 2 * bin_value s + (if c = CHR ''1'' then 1 else 0)"
  by (simp add: bin_value_def)

lemma int_base2_eq:
  "s \<noteq> [] \<Longrightarrow> binary s \<Longrightarrow> int_base2 s = Inr (bin_value s)"
  by (simp add: int_base2_def binary_def bin_value_def)

lemma bin_value_less: "bin_value s < 2 ^ length s"
proof (induction s rule: rev_induct)
  case Nil
  then show ?case by simp
next
  case (snoc c s)
  then show ?case by (simp add: bin_value_snoc)
qed

lemma bin_digits_Suc: "bin_digits (Suc w) v = bin_digits w (v div 2) @ [bit_char (odd v)]"
  using bin_digits_add [of w 1 v]
  by (simp add: bin_digits_def drop_bit_eq_div bit_0)

lemma binary_bin_digits: "binary (bin_digits w v)"
  by (auto simp: binary_def bin_digits_def bit_char_def list_all_iff)

lemma binary_append: "binary (a @ b) \<longleftrightarrow> binary a \<and> binary b"
  by (simp add: binary_def)

lemma bin_digits_bin_value: "binary s \<Longrightarrow> bin_digits (length s) (int (bin_value s)) = s"
proof (induction s rule: rev_induct)
  case Nil
  then show ?case by (simp add: bin_digits_def)
next
  case (snoc c s)
  then have s: "binary s" and c: "c = CHR ''0'' \<or> c = CHR ''1''"
    by (simp_all add: binary_def)
  have "(int (bin_value (s @ [c]))) div 2 = int (bin_value s)"
    by (simp add: bin_value_snoc)
  moreover have "bit_char (odd (int (bin_value (s @ [c])))) = c"
    using c by (auto simp: bin_value_snoc bit_char_def)
  ultimately show ?case
    using snoc.IH [OF s] by (simp add: bin_digits_Suc del: of_nat_add of_nat_mult)
qed

lemma bin_value_bin_digits: "bin_value (bin_digits w v) = nat (take_bit w v)"
proof (induction w arbitrary: v)
  case 0
  then show ?case by (simp add: bin_digits_def)
next
  case (Suc w)
  have "take_bit (Suc w) v = take_bit w (v div 2) * 2 + v mod 2"
    by (rule take_bit_Suc)
  then have "nat (take_bit (Suc w) v) = 2 * nat (take_bit w (v div 2)) + (if odd v then 1 else 0)"
    by (auto simp: nat_add_distrib nat_mult_distrib odd_iff_mod_2_eq_one)
  then show ?case
    by (simp add: bin_digits_Suc bin_value_snoc Suc.IH bit_char_def)
qed

lemma int_base2_bin_digits: "0 < w \<Longrightarrow> int_base2 (bin_digits w v) = Inr (nat (take_bit w v))"
proof -
  assume "0 < w"
  then have "bin_digits w v \<noteq> []"
    using length_bin_digits [of w v] by auto
  then show ?thesis
    by (simp add: int_base2_eq binary_bin_digits bin_value_bin_digits)
qed

section \<open>What compress packs\<close>

lemma pack_fits:
  assumes "0 \<le> v" and "v < 2 ^ w"
  shows "\<exists>p'. pack p v w = Inr p' \<and> Packer_bits p' = Packer_bits p @ bin_digits w v"
proof -
  from assms have "v AND (2 ^ w - 1) = v" by (simp add: fits_iff2)
  then obtain p' where p': "pack p v w = Inr p'"
    by (simp add: pack_def)
  then have "Packer_bits p' = Packer_bits p @ bin_digits w v"
    by (simp add: Packer_bits_def pack_digits)
  with p' show ?thesis by blast
qed

lemma pack_code:
  assumes "c \<noteq> []" and "binary c"
  shows "\<exists>v p'. int_base2 c = Inr v \<and> pack p (int v) (length c) = Inr p' \<and>
           Packer_bits p' = Packer_bits p @ c"
proof -
  have v: "int_base2 c = Inr (bin_value c)" using assms by (rule int_base2_eq)
  have "int (bin_value c) < 2 ^ length c"
    using bin_value_less [of c] by (metis of_nat_less_iff of_nat_numeral of_nat_power)
  then obtain p' where "pack p (int (bin_value c)) (length c) = Inr p'"
    "Packer_bits p' = Packer_bits p @ bin_digits (length c) (int (bin_value c))"
    using pack_fits [of "int (bin_value c)" "length c" p] by auto
  with v assms(2) show ?thesis
    by (auto simp: bin_digits_bin_value)
qed

lemma pack_items_bits:
  "list_all (\<lambda>(s, c). c \<noteq> [] \<and> binary c \<and> length c < 256) dict \<Longrightarrow>
   \<exists>p'. pack_items p dict = Inr p' \<and> Packer_bits p' = Packer_bits p @ header_bits dict"
proof (induction dict arbitrary: p)
  case Nil
  then show ?case by (simp add: header_bits_def)
next
  case (Cons e dict)
  obtain s c where e: "e = (s, c)" by (cases e)
  from Cons.prems e have c: "c \<noteq> []" "binary c" "length c < 256"
    and rest: "list_all (\<lambda>(s, c). c \<noteq> [] \<and> binary c \<and> length c < 256) dict"
    by simp_all
  have "uint s < 2 ^ 8" using uint_bounded [of s] by simp
  then obtain p1 where p1: "pack p (uint s) 8 = Inr p1"
    "Packer_bits p1 = Packer_bits p @ bin_digits 8 (uint s)"
    using pack_fits [of "uint s" 8 p] by auto
  have "int (length c) < 2 ^ 8" using c(3) by simp
  then obtain p2 where p2: "pack p1 (int (length c)) 8 = Inr p2"
    "Packer_bits p2 = Packer_bits p1 @ bin_digits 8 (int (length c))"
    using pack_fits [of "int (length c)" 8 p1] by auto
  obtain v p3 where p3: "int_base2 c = Inr v" "pack p2 (int v) (length c) = Inr p3"
    "Packer_bits p3 = Packer_bits p2 @ c"
    using pack_code [OF c(1,2), of p2] by auto
  obtain p' where p': "pack_items p3 dict = Inr p'"
    "Packer_bits p' = Packer_bits p3 @ header_bits dict"
    using Cons.IH [OF rest, of p3] by auto
  have "pack_items p (e # dict) = Inr p'"
    by (simp add: e p1(1) p2(1) p3(1,2) p'(1))
  moreover have "Packer_bits p' = Packer_bits p @ header_bits (e # dict)"
    by (simp add: e p1(2) p2(2) p3(3) p'(2) header_bits_def)
  ultimately show ?case by blast
qed

lemma pack_data_bits:
  "\<forall>s\<in>set d. \<exists>c. map_of dict s = Some c \<and> c \<noteq> [] \<and> binary c \<Longrightarrow>
   \<exists>p'. pack_data dict p d = Inr p' \<and> Packer_bits p' = Packer_bits p @ payload_bits dict d"
proof (induction d arbitrary: p)
  case Nil
  then show ?case by (simp add: payload_bits_def)
next
  case (Cons s d)
  from Cons.prems obtain c where c: "map_of dict s = Some c" "c \<noteq> []" "binary c"
    by auto
  obtain v p1 where p1: "int_base2 c = Inr v" "pack p (int v) (length c) = Inr p1"
    "Packer_bits p1 = Packer_bits p @ c"
    using pack_code [OF c(2,3), of p] by auto
  from Cons.prems have "\<forall>s\<in>set d. \<exists>c. map_of dict s = Some c \<and> c \<noteq> [] \<and> binary c"
    by simp
  then obtain p' where p': "pack_data dict p1 d = Inr p'"
    "Packer_bits p' = Packer_bits p1 @ payload_bits dict d"
    using Cons.IH [of p1] by auto
  have "pack_data dict p (s # d) = Inr p'"
    by (simp add: c(1) p1(1,2) p'(1))
  moreover have "Packer_bits p' = Packer_bits p @ payload_bits dict (s # d)"
    by (simp add: p1(3) p'(2) payload_bits_def code_of_def c(1))
  ultimately show ?case by blast
qed

lemma code_table_lookup:
  assumes "code_table_ok dict" and "s \<in> fst ` set dict"
  shows "\<exists>c. map_of dict s = Some c \<and> (s, c) \<in> set dict \<and> c \<noteq> [] \<and> binary c \<and> length c < 256"
proof -
  from assms(2) obtain c where c: "(s, c) \<in> set dict" by auto
  with assms(1) have "map_of dict s = Some c"
    by (simp add: code_table_ok_def)
  moreover from c assms(1) have "c \<noteq> [] \<and> binary c \<and> length c < 256"
    by (auto simp: code_table_ok_def list_all_iff)
  ultimately show ?thesis using c by blast
qed

lemma compress_bits:
  assumes ok: "code_table_ok (HuffmanTree_to_dict tree)"
    and keys: "set (HuffmanTree.data tree) \<subseteq> fst ` set (HuffmanTree_to_dict tree)"
    and len: "length (HuffmanTree.data tree) < 2 ^ 32"
  shows "\<exists>p. compress tree = Inr (fst (flush p)) \<and>
           Packer_bits p = blob_bits (HuffmanTree_to_dict tree) (HuffmanTree.data tree)"
proof -
  define dict where "dict = HuffmanTree_to_dict tree"
  define d where "d = HuffmanTree.data tree"
  from ok have n: "dict \<noteq> []" "length dict \<le> 256"
    and entries: "list_all (\<lambda>(s, c). c \<noteq> [] \<and> binary c \<and> length c < 256) dict"
    by (simp_all add: code_table_ok_def dict_def)
  have "0 \<le> int (length dict) - 1" "int (length dict) - 1 < 2 ^ 8"
    using n by (cases dict; simp)+
  then obtain p1 where p1: "pack Packer_init (int (length dict) - 1) 8 = Inr p1"
    "Packer_bits p1 = Packer_bits Packer_init @ bin_digits 8 (int (length dict) - 1)"
    using pack_fits [of "int (length dict) - 1" 8 Packer_init] by auto
  obtain p2 where p2: "pack_items p1 dict = Inr p2"
    "Packer_bits p2 = Packer_bits p1 @ header_bits dict"
    using pack_items_bits [OF entries, of p1] by auto
  have "int (length d) < 2 ^ 32" using len by (simp add: d_def)
  then obtain p3 where p3: "pack p2 (int (length d)) 32 = Inr p3"
    "Packer_bits p3 = Packer_bits p2 @ bin_digits 32 (int (length d))"
    using pack_fits [of "int (length d)" 32 p2] by auto
  have "\<forall>s\<in>set d. \<exists>c. map_of dict s = Some c \<and> c \<noteq> [] \<and> binary c"
    using code_table_lookup [OF ok] keys by (fastforce simp: dict_def d_def)
  then obtain p4 where p4: "pack_data dict p3 d = Inr p4"
    "Packer_bits p4 = Packer_bits p3 @ payload_bits dict d"
    using pack_data_bits [of d dict p3] by auto
  have "compress tree = Inr (fst (flush p4))"
    using p1(1) p2(1) p3(1) p4(1) by (simp add: compress_def dict_def [symmetric] d_def [symmetric])
  moreover have "Packer_bits Packer_init = []"
    by (simp add: Packer_bits_def Packer_init_def bin_digits_def)
  then have "Packer_bits p4 = blob_bits dict d"
    by (simp add: p1(2) p2(2) p3(2) p4(2) blob_bits_def)
  ultimately show ?thesis
    unfolding dict_def d_def by blast
qed

section \<open>Reading a blob back\<close>

lemma unpack_next:
  assumes "unread u = s @ rest" and "s \<noteq> []"
  shows "\<exists>u'. unpack u (length s) = Inr (s, u') \<and> unread u' = rest"
proof -
  from assms have "drop (bit_index u) (data_bit_string u) \<noteq> []"
    by (simp add: unread_def)
  then have ne: "\<not> is_empty u"
    by (simp add: is_empty_def)
  have "unread (u\<lparr>bit_index := bit_index u + length s\<rparr>) = drop (length s) (unread u)"
    by (simp add: unread_def add.commute)
  then have "unread (u\<lparr>bit_index := bit_index u + length s\<rparr>) = rest"
    using assms(1) by simp
  moreover have "unpack u (length s) = Inr (s, u\<lparr>bit_index := bit_index u + length s\<rparr>)"
    using ne assms(1) by (simp add: unpack_def unread_def)
  ultimately show ?thesis by blast
qed

lemma unpack_digits:
  assumes "unread u = bin_digits w v @ rest" and "0 < w"
  shows "\<exists>u'. unpack u w = Inr (bin_digits w v, u') \<and> unread u' = rest"
proof -
  have "bin_digits w v \<noteq> []"
    using assms(2) length_bin_digits [of w v] by auto
  from unpack_next [OF assms(1) this] show ?thesis
    by (simp add: length_bin_digits)
qed

lemma int_base2_nat_digits:
  "0 < w \<Longrightarrow> n < 2 ^ w \<Longrightarrow> int_base2 (bin_digits w (int n)) = Inr n"
proof -
  assume w: "0 < w" and n: "n < 2 ^ w"
  have "int n < 2 ^ w"
    using n by (metis of_nat_less_iff of_nat_numeral of_nat_power)
  then have "take_bit w (int n) = int n"
    by (simp add: take_bit_int_eq_self)
  with w show ?thesis
    by (simp add: int_base2_bin_digits)
qed

lemma int_base2_byte_digits: "int_base2 (bin_digits 8 (uint s)) = Inr (unat (s :: byte))"
proof -
  have "uint s < 2 ^ 8" using uint_bounded [of s] by simp
  then have "take_bit 8 (uint s) = uint s"
    by (simp add: take_bit_int_eq_self)
  then show ?thesis
    by (simp add: int_base2_bin_digits)
qed

lemma read_codes_header:
  "list_all (\<lambda>(s, c). c \<noteq> [] \<and> binary c \<and> length c < 256) dict \<Longrightarrow>
   unread u = header_bits dict @ rest \<Longrightarrow>
   \<exists>u'. read_codes (length dict) u acc = Inr (decoder_dict dict acc, u') \<and> unread u' = rest"
proof (induction dict arbitrary: u acc)
  case Nil
  then show ?case by (simp add: header_bits_def decoder_dict_def)
next
  case (Cons e dict)
  obtain s c where e: "e = (s, c)" by (cases e)
  from Cons.prems(1) e have c: "c \<noteq> []" "length c < 256"
    and entries: "list_all (\<lambda>(s, c). c \<noteq> [] \<and> binary c \<and> length c < 256) dict"
    by simp_all
  have bits: "unread u =
      bin_digits 8 (uint s) @ (bin_digits 8 (int (length c)) @ (c @ (header_bits dict @ rest)))"
    using Cons.prems(2) by (simp add: e header_bits_def)
  obtain u1 where u1: "unpack u 8 = Inr (bin_digits 8 (uint s), u1)"
    "unread u1 = bin_digits 8 (int (length c)) @ (c @ (header_bits dict @ rest))"
    using unpack_digits [OF bits] by auto
  obtain u2 where u2: "unpack u1 8 = Inr (bin_digits 8 (int (length c)), u2)"
    "unread u2 = c @ (header_bits dict @ rest)"
    using unpack_digits [OF u1(2)] by auto
  obtain u3 where u3: "unpack u2 (length c) = Inr (c, u3)"
    "unread u3 = header_bits dict @ rest"
    using unpack_next [OF u2(2) c(1)] by auto
  have len: "int_base2 (bin_digits 8 (int (length c))) = Inr (length c)"
    using c(2) by (simp add: int_base2_nat_digits)
  obtain u' where u': "read_codes (length dict) u3 (AList.update c [s] acc) =
      Inr (decoder_dict dict (AList.update c [s] acc), u')" "unread u' = rest"
    using Cons.IH [OF entries u3(2), of "AList.update c [s] acc"] by auto
  have "read_codes (length (e # dict)) u acc = Inr (decoder_dict (e # dict) acc, u')"
    by (simp add: e u1(1) u2(1) u3(1) len int_base2_byte_digits u'(1) decoder_dict_def)
  with u'(2) show ?case by blast
qed

section \<open>Looking codes up\<close>

lemma decoder_dict_other:
  "x \<notin> snd ` set dict \<Longrightarrow> map_of (decoder_dict dict acc) x = map_of acc x"
proof (induction dict arbitrary: acc)
  case Nil
  then show ?case by (simp add: decoder_dict_def)
next
  case (Cons e dict)
  obtain s c where e: "e = (s, c)" by (cases e)
  from Cons.prems e have "x \<noteq> c" and "x \<notin> snd ` set dict" by auto
  then have "map_of (decoder_dict dict (AList.update c [s] acc)) x = map_of acc x"
    using Cons.IH [of "AList.update c [s] acc"] by (simp add: update_conv')
  then show ?case by (simp add: e decoder_dict_def)
qed

lemma decoder_dict_code:
  "distinct (map snd dict) \<Longrightarrow> (s, c) \<in> set dict \<Longrightarrow>
     map_of (decoder_dict dict acc) c = Some [s]"
proof (induction dict arbitrary: acc)
  case Nil
  then show ?case by simp
next
  case (Cons e dict)
  obtain s0 c0 where e: "e = (s0, c0)" by (cases e)
  from Cons.prems(1) e have fresh: "c0 \<notin> snd ` set dict" and dist: "distinct (map snd dict)"
    by auto
  have step: "decoder_dict (e # dict) acc = decoder_dict dict (AList.update c0 [s0] acc)"
    by (simp add: e decoder_dict_def)
  show ?case
  proof (cases "(s, c) = (s0, c0)")
    case True
    then have "map_of (decoder_dict dict (AList.update c0 [s0] acc)) c = Some [s]"
      using fresh decoder_dict_other [of c dict "AList.update c0 [s0] acc"]
      by (simp add: update_conv')
    with step show ?thesis by simp
  next
    case False
    with Cons.prems(2) e have "(s, c) \<in> set dict" by auto
    with Cons.IH [OF dist] step show ?thesis by simp
  qed
qed

lemma code_table_codes_distinct:
  assumes "code_table_ok dict"
  shows "distinct (map snd dict)"
proof -
  from assms have keys: "distinct (map fst dict)" and pf: "prefix_free dict"
    by (simp_all add: code_table_ok_def)
  have "inj_on snd (set dict)"
  proof (rule inj_onI)
    fix a b assume a: "a \<in> set dict" and b: "b \<in> set dict" and eq: "snd a = snd b"
    obtain s1 c1 s2 c2 where ab: "a = (s1, c1)" "b = (s2, c2)" by (cases a, cases b)
    from pf a b ab have "s1 = s2 \<or> \<not> prefix c1 c2"
      by (fastforce simp: prefix_free_def list_all_iff)
    with eq ab show "a = b" by auto
  qed
  moreover have "distinct dict" using keys by (simp add: distinct_map)
  ultimately show ?thesis by (simp add: distinct_map)
qed

lemma code_table_proper_prefix:
  assumes ok: "code_table_ok dict" and c: "(s, c) \<in> set dict"
    and x: "c = x @ r" "r \<noteq> []"
  shows "x \<notin> snd ` set dict"
proof
  assume "x \<in> snd ` set dict"
  then obtain s' where s': "(s', x) \<in> set dict" by auto
  from ok have pf: "prefix_free dict" by (simp add: code_table_ok_def)
  with s' c have "s' = s \<or> \<not> prefix x c"
    by (fastforce simp: prefix_free_def list_all_iff)
  moreover have "prefix x c" using x(1) by simp
  ultimately have same: "s' = s" by simp
  from ok have keys: "distinct (map fst dict)" by (simp add: code_table_ok_def)
  have "map_of dict s = Some x"
    using keys s' same by (intro map_of_is_SomeI) simp_all
  moreover have "map_of dict s = Some c"
    using keys c by (rule map_of_is_SomeI)
  ultimately have "x = c" by simp
  with x show False by simp
qed

section \<open>The payload loop on the codes of the input\<close>

lemma decode_loop_step:
  "n \<noteq> 0 \<Longrightarrow> decode_body dec (u, n, out, bs) = Inr st \<Longrightarrow>
     decode_loop dec (u, n, out, bs) = decode_loop dec st"
  by (simp add: decode_loop.simps [of dec u n out bs])

lemma decode_symbol:
  assumes ok: "code_table_ok dict" and c: "(s, c) \<in> set dict" and n: "n \<noteq> 0"
  shows "c = bs @ r \<Longrightarrow> r \<noteq> [] \<Longrightarrow> unread u = r @ tail \<Longrightarrow>
     \<exists>u'. decode_loop (decoder_dict dict []) (u, n, out, bs) =
             decode_loop (decoder_dict dict []) (u', n - 1, out @ [s], []) \<and>
          unread u' = tail"
proof (induction r arbitrary: bs u)
  case Nil
  then show ?case by simp
next
  case (Cons b r)
  have bits: "unread u = [b] @ (r @ tail)" using Cons.prems(3) by simp
  obtain u1 where u1: "unpack u (Suc 0) = Inr ([b], u1)" "unread u1 = r @ tail"
    using unpack_next [OF bits] by auto
  show ?case
  proof (cases "r = []")
    case True
    with Cons.prems(1) have "bs @ [b] = c" by simp
    then have "map_of (decoder_dict dict []) (bs @ [b]) = Some [s]"
      using decoder_dict_code [OF code_table_codes_distinct [OF ok] c] by simp
    then have "decode_body (decoder_dict dict []) (u, n, out, bs) = Inr (u1, n - 1, out @ [s], [])"
      by (simp add: decode_body_def u1(1))
    then have "decode_loop (decoder_dict dict []) (u, n, out, bs) =
        decode_loop (decoder_dict dict []) (u1, n - 1, out @ [s], [])"
      using n by (rule decode_loop_step [rotated])
    with u1(2) True show ?thesis by auto
  next
    case False
    from Cons.prems(1) have split: "c = (bs @ [b]) @ r" by simp
    have "bs @ [b] \<notin> snd ` set dict"
      using code_table_proper_prefix [OF ok c split False] .
    then have "map_of (decoder_dict dict []) (bs @ [b]) = None"
      by (simp add: decoder_dict_other)
    then have "decode_body (decoder_dict dict []) (u, n, out, bs) = Inr (u1, n, out, bs @ [b])"
      by (simp add: decode_body_def u1(1))
    then have "decode_loop (decoder_dict dict []) (u, n, out, bs) =
        decode_loop (decoder_dict dict []) (u1, n, out, bs @ [b])"
      using n by (rule decode_loop_step [rotated])
    with Cons.IH [OF split False u1(2)] show ?thesis by simp
  qed
qed

lemma decode_payload:
  assumes ok: "code_table_ok dict"
  shows "set d \<subseteq> fst ` set dict \<Longrightarrow> unread u = payload_bits dict d @ tail \<Longrightarrow>
     decode_loop (decoder_dict dict []) (u, length d, out, []) = Inr (out @ d)"
proof (induction d arbitrary: u out)
  case Nil
  then show ?case by (simp add: decode_loop.simps)
next
  case (Cons s d)
  from Cons.prems(1) obtain c where c: "map_of dict s = Some c" "(s, c) \<in> set dict" "c \<noteq> []"
    using code_table_lookup [OF ok, of s] by auto
  have bits: "unread u = c @ (payload_bits dict d @ tail)"
    using Cons.prems(2) by (simp add: payload_bits_def code_of_def c(1))
  have "c = [] @ c" by simp
  from decode_symbol [OF ok c(2) _ this c(3) bits, of "length (s # d)" out]
  obtain u' where u': "decode_loop (decoder_dict dict []) (u, length (s # d), out, []) =
      decode_loop (decoder_dict dict []) (u', length (s # d) - 1, out @ [s], [])"
    "unread u' = payload_bits dict d @ tail"
    by auto
  from Cons.prems(1) have "set d \<subseteq> fst ` set dict" by simp
  from Cons.IH [OF this u'(2), of "out @ [s]"] u'(1) show ?case by simp
qed

section \<open>decompress on the output of compress\<close>

lemma decompress_header_blob:
  assumes ok: "code_table_ok dict" and len: "length d < 2 ^ 32"
    and bits: "concat (map format_08b blob) = blob_bits dict d @ pad"
  shows "\<exists>u. decompress_header blob = Inr (decoder_dict dict [], u, length d) \<and>
           unread u = payload_bits dict d @ pad"
proof -
  from ok have n: "dict \<noteq> []" "length dict \<le> 256"
    and entries: "list_all (\<lambda>(s, c). c \<noteq> [] \<and> binary c \<and> length c < 256) dict"
    by (simp_all add: code_table_ok_def)
  obtain k where k: "length dict = Suc k" "k < 2 ^ 8"
    using n by (cases dict) auto
  have first: "bin_digits 8 (int (length dict) - 1) = bin_digits 8 (int k)"
    by (simp add: k(1))
  have "unread (Unpacker_init blob) =
      bin_digits 8 (int k) @ (header_bits dict @ (bin_digits 32 (int (length d)) @
        (payload_bits dict d @ pad)))"
    by (simp add: unread_def Unpacker_init_def bits blob_bits_def first)
  then obtain u0 where u0: "unpack (Unpacker_init blob) 8 = Inr (bin_digits 8 (int k), u0)"
    "unread u0 = header_bits dict @ (bin_digits 32 (int (length d)) @ (payload_bits dict d @ pad))"
    using unpack_digits [of "Unpacker_init blob" 8 "int k"] by auto
  have k8: "int_base2 (bin_digits 8 (int k)) = Inr k"
    using k(2) by (simp add: int_base2_nat_digits)
  obtain u1 where u1: "read_codes (length dict) u0 [] = Inr (decoder_dict dict [], u1)"
    "unread u1 = bin_digits 32 (int (length d)) @ (payload_bits dict d @ pad)"
    using read_codes_header [OF entries u0(2), of "[]"] by auto
  obtain u2 where u2: "unpack u1 32 = Inr (bin_digits 32 (int (length d)), u2)"
    "unread u2 = payload_bits dict d @ pad"
    using unpack_digits [OF u1(2)] by auto
  have d32: "int_base2 (bin_digits 32 (int (length d))) = Inr (length d)"
    using len by (simp add: int_base2_nat_digits)
  have "decompress_header blob = Inr (decoder_dict dict [], u2, length d)"
    using u1(1) by (simp add: decompress_header_def u0(1) k8 k(1) u2(1) d32)
  with u2(2) show ?thesis by blast
qed

lemma decompress_blob:
  assumes ok: "code_table_ok dict" and len: "length d < 2 ^ 32"
    and keys: "set d \<subseteq> fst ` set dict"
    and bits: "concat (map format_08b blob) = blob_bits dict d @ pad"
  shows "decompress blob = Inr d"
proof -
  obtain u where u: "decompress_header blob = Inr (decoder_dict dict [], u, length d)"
    "unread u = payload_bits dict d @ pad"
    using decompress_header_blob [OF ok len bits] by auto
  have "decode_loop (decoder_dict dict []) (u, length d, [], []) = Inr ([] @ d)"
    using ok keys u(2) by (rule decode_payload)
  with u(1) show ?thesis by (simp add: decompress_def)
qed

section \<open>Compression as a whole\<close>

lemma set_iteration_length: "set_iteration symbols d \<Longrightarrow> length symbols = card (set d)"
  by (metis set_iteration_def distinct_card)

lemma length_Packer_bits: "length (Packer_bits p) = bit_length p"
  by (simp add: Packer_bits_def length_bin_digits)

lemma pack_table:
  assumes "code_table_ok dict"
  shows "\<exists>p1 p2. pack Packer_init (int (length dict) - 1) 8 = Inr p1 \<and>
           pack_items p1 dict = Inr p2"
proof -
  from assms have n: "dict \<noteq> []" "length dict \<le> 256"
    and entries: "list_all (\<lambda>(s, c). c \<noteq> [] \<and> binary c \<and> length c < 256) dict"
    by (simp_all add: code_table_ok_def)
  have "0 \<le> int (length dict) - 1" "int (length dict) - 1 < 2 ^ 8"
    using n by (cases dict; simp)+
  then obtain p1 where p1: "pack Packer_init (int (length dict) - 1) 8 = Inr p1"
    using pack_fits [of "int (length dict) - 1" 8 Packer_init] by auto
  obtain p2 where "pack_items p1 dict = Inr p2"
    using pack_items_bits [OF entries, of p1] by auto
  with p1 show ?thesis by blast
qed

lemma main_compress_result:
  assumes "set_iteration symbols d" and "2 \<le> card (set d)" and "length d < 2 ^ 32"
  shows "\<exists>tree p. HuffmanTree_init symbols d = Inr tree \<and>
           code_table_ok (HuffmanTree_to_dict tree) \<and>
           fst ` set (HuffmanTree_to_dict tree) = set d \<and>
           length (HuffmanTree_to_dict tree) = card (set d) \<and>
           compress tree = Inr (fst (flush p)) \<and>
           main_compress symbols d = Inr (fst (flush p)) \<and>
           Packer_bits p = blob_bits (HuffmanTree_to_dict tree) d"
proof -
  have len: "length symbols = card (set d)"
    using assms(1) by (rule set_iteration_length)
  with assms(2) have "2 \<le> length symbols" by simp
  from HuffmanTree_table [OF assms(1) this]
  obtain tree where tree: "HuffmanTree_init symbols d = Inr tree" "HuffmanTree.data tree = d"
    "code_table_ok (HuffmanTree_to_dict tree)" "fst ` set (HuffmanTree_to_dict tree) = set d"
    "length (HuffmanTree_to_dict tree) = length symbols"
    by (elim exE conjE)
  have keys: "set (HuffmanTree.data tree) \<subseteq> fst ` set (HuffmanTree_to_dict tree)"
    using tree(2,4) by simp
  have short: "length (HuffmanTree.data tree) < 2 ^ 32"
    using tree(2) assms(3) by simp
  from compress_bits [OF tree(3) keys short]
  obtain p where p: "compress tree = Inr (fst (flush p))"
    "Packer_bits p = blob_bits (HuffmanTree_to_dict tree) (HuffmanTree.data tree)"
    by (elim exE conjE)
  have "main_compress symbols d = Inr (fst (flush p))"
    by (simp add: main_compress_def tree(1) p(1))
  with tree p len show ?thesis by auto
qed

lemma main_compress_too_long:
  assumes "set_iteration symbols d" and "2 \<le> card (set d)" and "2 ^ 32 \<le> length d"
  shows "main_compress symbols d = Inl (AssertionError_does_not_fit (int (length d)) 32)"
proof -
  have "length symbols = card (set d)"
    using assms(1) by (rule set_iteration_length)
  with assms(2) have "2 \<le> length symbols" by simp
  from HuffmanTree_table [OF assms(1) this]
  obtain tree where tree: "HuffmanTree_init symbols d = Inr tree" "HuffmanTree.data tree = d"
    "code_table_ok (HuffmanTree_to_dict tree)"
    by (elim exE conjE)
  obtain p1 p2 where p: "pack Packer_init (int (length (HuffmanTree_to_dict tree)) - 1) 8 = Inr p1"
    "pack_items p1 (HuffmanTree_to_dict tree) = Inr p2"
    using pack_table [OF tree(3)] by (elim exE conjE)
  have "\<not> int (length d) < 2 ^ 32"
    using assms(3) by (metis not_less of_nat_le_iff of_nat_numeral of_nat_power)
  then have "int (length d) AND (2 ^ 32 - 1) \<noteq> int (length d)"
    by (simp only: fits_iff2) simp
  then have "pack p2 (int (length d)) 32 = Inl (AssertionError_does_not_fit (int (length d)) 32)"
    by (simp add: pack_def)
  then have "compress tree = Inl (AssertionError_does_not_fit (int (length d)) 32)"
    using p tree(2) by (simp add: compress_def)
  then show ?thesis
    by (simp add: main_compress_def tree(1))
qed

lemma main_compress_single: "main_compress [a] d = Inl ValueError"
proof -
  define leaf where "leaf = Node (Some a) (count_list d a) None None"
  have "HuffmanTree_loop [leaf] = Inr [leaf]"
    by (simp add: HuffmanTree_loop.simps)
  then have init: "HuffmanTree_init [a] d = Inr \<lparr>HuffmanTree.data = d, root = leaf\<rparr>"
    by (simp add: HuffmanTree_init_def leaf_def)
  have dict: "HuffmanTree_to_dict \<lparr>HuffmanTree.data = d, root = leaf\<rparr> = [(a, [])]"
    by (simp add: HuffmanTree_to_dict_def leaf_def)
  obtain p1 where p1: "pack Packer_init 0 8 = Inr p1"
    using pack_fits [of 0 8 Packer_init] by auto
  have "uint a < 2 ^ 8" using uint_bounded [of a] by simp
  then obtain p2 where p2: "pack p1 (uint a) 8 = Inr p2"
    using pack_fits [of "uint a" 8 p1] by auto
  obtain p3 where p3: "pack p2 0 8 = Inr p3"
    using pack_fits [of 0 8 p2] by auto
  have "int_base2 [] = Inl ValueError"
    by (simp add: int_base2_def)
  then have "pack_items p1 [(a, [])] = Inl ValueError"
    by (simp add: p2 p3)
  then have "compress \<lparr>HuffmanTree.data = d, root = leaf\<rparr> = Inl ValueError"
    by (simp add: compress_def dict p1)
  then show ?thesis
    by (simp add: main_compress_def init)
qed

lemma main_compress_empty: "main_compress [] d = Inl IndexError"
  by (simp add: main_compress_def HuffmanTree_init_def HuffmanTree_loop.simps)

section \<open>Malformed blobs\<close>

lemma unpack_length: "unpack u w = Inr (s, u') \<Longrightarrow> length s \<le> w"
  by (auto simp: unpack_def split: if_splits)

lemma int_base2_bound: "int_base2 s = Inr v \<Longrightarrow> v < 2 ^ length s"
  using bin_value_less [of s]
  by (auto simp: int_base2_def bin_value_def split: if_splits)

lemma read_codes_key_length:
  "read_codes k u acc = Inr (dict, u') \<Longrightarrow> \<forall>c\<in>fst ` set acc. length c < 256 \<Longrightarrow>
     \<forall>c\<in>fst ` set dict. length c < 256"
proof (induction k arbitrary: u acc)
  case 0
  then show ?case by simp
next
  case (Suc k)
  from Suc.prems(1) obtain s1 u1 symbol s2 u2 code_length code u3 where
    steps: "unpack u 8 = Inr (s1, u1)" "int_base2 s1 = Inr symbol"
      "unpack u1 8 = Inr (s2, u2)" "int_base2 s2 = Inr code_length"
      "unpack u2 code_length = Inr (code, u3)"
      "read_codes k u3 (AList.update code [of_nat symbol] acc) = Inr (dict, u')"
    by (auto split: sum.splits prod.splits)
  have "length s2 \<le> 8" using steps(3) by (rule unpack_length)
  then have "(2::nat) ^ length s2 \<le> 2 ^ 8"
    by (intro power_increasing) simp_all
  moreover have "code_length < 2 ^ length s2" using steps(4) by (rule int_base2_bound)
  ultimately have "code_length < 256" by simp
  moreover have "length code \<le> code_length" using steps(5) by (rule unpack_length)
  ultimately have "length code < 256" by simp
  with Suc.prems(2) have "\<forall>c\<in>fst ` set (AList.update code [of_nat symbol] acc). length c < 256"
    by (auto simp: dom_update)
  with Suc.IH [OF steps(6)] show ?case by blast
qed

lemma decompress_header_key_length:
  assumes "decompress_header blob = Inr (dict, u, n)"
  shows "\<forall>c\<in>fst ` set dict. length c < 256"
proof -
  from assms obtain k u0 u1 where "read_codes k u0 [] = Inr (dict, u1)"
    by (auto simp: decompress_header_def Let_def simp del: read_codes.simps
        split: sum.splits prod.splits)
  then show ?thesis
    by (rule read_codes_key_length) simp
qed

lemma decode_loop_exhausted:
  "n \<noteq> 0 \<Longrightarrow> is_empty u \<Longrightarrow> decode_loop dict (u, n, out, bs) = Inl AssertionError_no_data_left"
  by (simp add: decode_loop.simps [of dict u n out bs] decode_body_def unpack_def)

lemma decode_loop_stuck_state:
  "fst (snd st) \<noteq> 0 \<Longrightarrow> 255 < length (snd (snd (snd st))) \<Longrightarrow>
   \<forall>c\<in>fst ` set dict. length c < 256 \<Longrightarrow>
     decode_loop dict st = Inl AssertionError_no_data_left"
proof (induction dict st rule: decode_loop.induct)
  case (1 dict u n out bs)
  from "1.prems" have n: "n \<noteq> 0" and bs: "255 < length bs" by simp_all
  show ?case
  proof (cases "is_empty u")
    case True
    with n show ?thesis by (rule decode_loop_exhausted)
  next
    case False
    define s where "s = take 1 (drop (bit_index u) (data_bit_string u))"
    define u' where "u' = u\<lparr>bit_index := bit_index u + 1\<rparr>"
    have un: "unpack u 1 = Inr (s, u')"
      using False by (simp add: unpack_def s_def u'_def)
    have long: "255 < length (bs @ s)" using bs by simp
    have "map_of dict (bs @ s) = None"
    proof (cases "map_of dict (bs @ s)")
      case (Some v)
      then have "bs @ s \<in> fst ` set dict"
        by (metis map_of_SomeD fst_conv image_eqI)
      with "1.prems"(3) long show ?thesis by fastforce
    qed simp
    then have body: "decode_body dict (u, n, out, bs) = Inr (u', n, out, bs @ s)"
      using un by (simp add: decode_body_def)
    then have "decode_loop dict (u, n, out, bs) = decode_loop dict (u', n, out, bs @ s)"
      using n by (rule decode_loop_step [rotated])
    also have "\<dots> = Inl AssertionError_no_data_left"
      using "1.IH" [OF n body] n long "1.prems"(3) by simp
    finally show ?thesis .
  qed
qed

lemma decode_loop_stuck:
  "n \<noteq> 0 \<Longrightarrow> 255 < length bs \<Longrightarrow> \<forall>c\<in>fst ` set dict. length c < 256 \<Longrightarrow>
     decode_loop dict (u, n, out, bs) = Inl AssertionError_no_data_left"
  using decode_loop_stuck_state [of "(u, n, out, bs)" dict] by simp

lemma loop_reaches_result:
  "loop_reaches dict s t \<Longrightarrow> decode_loop dict s = decode_loop dict t"
proof (induction rule: loop_reaches.induct)
  case start
  show ?case by simp
next
  case (step u n out bs t)
  from step.hyps(2,3) have "decode_loop dict (u, n, out, bs) = decode_loop dict t"
    by (rule decode_loop_step)
  with step.IH show ?case by simp
qed

section \<open>Claims about the packer and the unpacker\<close>

text \<open>
  Claim C7. For every value \<open>v\<close> and width \<open>w\<close>, \<open>pack(v, w)\<close> fails with the
  does-not-fit assertion exactly when \<open>v\<close> has a set bit at a position \<open>\<ge> w\<close>
  (a negative \<open>v\<close> has all its high bits set); otherwise it succeeds, appends the \<open>w\<close>
  low bits of \<open>v\<close>, most significant first, to the bits of the buffer, and increases
  \<open>bit_length\<close> by \<open>w\<close>.
\<close>


theorem pack_contract:
  "(pack p v w = Inl (AssertionError_does_not_fit v w) \<longleftrightarrow> (\<exists>i\<ge>w. bit v i)) \<and>
   ((\<exists>p'. pack p v w = Inr p') \<longleftrightarrow> \<not> (\<exists>i\<ge>w. bit v i)) \<and>
   (\<forall>p'. pack p v w = Inr p' \<longrightarrow>
      Packer_bits p' = Packer_bits p @ bin_digits w v \<and> bit_length p' = bit_length p + w)"
proof (intro conjI allI impI)
  show "pack p v w = Inl (AssertionError_does_not_fit v w) \<longleftrightarrow> (\<exists>i\<ge>w. bit v i)"
    using fits_iff [of v w] by (auto simp: pack_def)
  show "(\<exists>p'. pack p v w = Inr p') \<longleftrightarrow> \<not> (\<exists>i\<ge>w. bit v i)"
    using fits_iff [of v w] by (auto simp: pack_def)
next
  fix p' assume "pack p v w = Inr p'"
  then show "Packer_bits p' = Packer_bits p @ bin_digits w v"
    by (simp add: Packer_bits_def pack_digits)
next
  fix p' assume "pack p v w = Inr p'"
  then show "bit_length p' = bit_length p + w"
    by (simp add: pack_Inr_iff)
qed

theorem pack_contract_witness:
  "pack \<lparr>buffer = 1, bit_length = 1\<rparr> 5 3 = Inr \<lparr>buffer = 13, bit_length = 4\<rparr> \<and>
   Packer_bits \<lparr>buffer = 13, bit_length = 4\<rparr> = ''1101'' \<and>
   pack \<lparr>buffer = 1, bit_length = 1\<rparr> 8 3 = Inl (AssertionError_does_not_fit 8 3) \<and>
   bit (8::int) 3"
proof -
  have ok: "pack \<lparr>buffer = 1, bit_length = 1\<rparr> 5 3 = Inr \<lparr>buffer = 13, bit_length = 4\<rparr>"
    by (simp add: pack_def)
  have b: "bit (8::int) 3" by (simp add: bit_iff_odd)
  have "Packer_bits \<lparr>buffer = 1, bit_length = 1\<rparr> = ''1''" "bin_digits 3 5 = ''101''"
    by (simp_all add: Packer_bits_def bin_digits_def bit_char_def bit_iff_odd upt_rec)
  with ok b show ?thesis
    using pack_contract [of "\<lparr>buffer = 1, bit_length = 1\<rparr>" 5 3]
      pack_contract [of "\<lparr>buffer = 1, bit_length = 1\<rparr>" 8 3]
    by auto
qed

text \<open>
  Claim C6. For every packer state with bit length \<open>L\<close>, \<open>flush\<close> pads with
  \<open>(8 - L mod 8) mod 8\<close> zero bits, fewer than 8; the bytes it returns, read most
  significant byte and bit first, are the bits of the buffer followed by that padding, so
  their length in bits is \<open>L\<close> plus the padding, a multiple of 8; and the packer is
  left as a new one, buffer and bit length 0.
\<close>


theorem flush_contract:
  "pad_bits_of (bit_length p) = (8 - bit_length p mod 8) mod 8 \<and>
   pad_bits_of (bit_length p) < 8 \<and>
   concat (map format_08b (fst (flush p))) =
     Packer_bits p @ replicate (pad_bits_of (bit_length p)) (CHR ''0'') \<and>
   8 * length (fst (flush p)) = bit_length p + pad_bits_of (bit_length p) \<and>
   snd (flush p) = Packer_init"
proof (intro conjI)
  show "pad_bits_of (bit_length p) = (8 - bit_length p mod 8) mod 8"
    by (rule pad_bits_of_eq)
  show "pad_bits_of (bit_length p) < 8"
    by (simp add: pad_bits_of_def)
  show "concat (map format_08b (fst (flush p))) =
     Packer_bits p @ replicate (pad_bits_of (bit_length p)) (CHR ''0'')"
    by (simp add: flush_digits Packer_bits_def)
  show "8 * length (fst (flush p)) = bit_length p + pad_bits_of (bit_length p)"
    by (rule flush_length)
  show "snd (flush p) = Packer_init"
    by (simp add: flush_def Let_def Packer_init_def)
qed

theorem flush_contract_witness:
  "fst (flush \<lparr>buffer = 5, bit_length = 3\<rparr>) = [0xA0] \<and>
   pad_bits_of 3 = 5 \<and>
   concat (map format_08b (fst (flush \<lparr>buffer = 5, bit_length = 3\<rparr>))) = ''101'' @ ''00000''"
proof -
  have "Packer_bits \<lparr>buffer = 5, bit_length = 3\<rparr> = ''101''"
    by (simp add: Packer_bits_def bin_digits_def bit_char_def bit_iff_odd upt_rec)
  moreover have "fst (flush \<lparr>buffer = 5, bit_length = 3\<rparr>) = [0xA0]"
    by code_simp
  moreover have "pad_bits_of 3 = 5"
    by (simp add: pad_bits_of_def)
  moreover have "replicate 5 (CHR ''0'') = ''00000''"
    by code_simp
  ultimately show ?thesis
    using flush_contract [of "\<lparr>buffer = 5, bit_length = 3\<rparr>"]
    by simp
qed

text \<open>
  Claim C3, as stated: when fewer than \<open>w\<close> unread bits remain, \<open>unpack(w)\<close> fails and
  never returns fewer than \<open>w\<close> bits. It does not hold: with 8 unread bits,
  \<open>unpack(9)\<close> returns those 8 bits.
\<close>


theorem unpack_short_counterexample:
  "unread_bits (Unpacker_init [0xA5]) = 8 \<and>
   unpack (Unpacker_init [0xA5]) 9 =
     Inr (''10100101'', \<lparr>Unpacker.data = [0xA5], data_bit_string = ''10100101'', bit_index = 9\<rparr>)"
  by (simp add: unread_bits_def Unpacker_init_def unpack_def is_empty_def format_08b_def
      bin_digits_def bit_char_def bit_iff_odd upt_rec)

text \<open>
  Claim C3, amended. \<open>unpack(w)\<close> fails with the no-data-left assertion exactly when no
  unread bit remains. With at least one unread bit it returns the next
  \<open>min w (unread bits)\<close> bits, a result shorter than \<open>w\<close> when fewer than \<open>w\<close> remain,
  and moves the cursor forward by \<open>w\<close>.
\<close>


theorem unpack_contract:
  "(unpack u w = Inl AssertionError_no_data_left \<longleftrightarrow> unread_bits u = 0) \<and>
   (0 < unread_bits u \<longrightarrow>
      (\<exists>s. unpack u w = Inr (s, u\<lparr>bit_index := bit_index u + w\<rparr>) \<and>
           s = take w (drop (bit_index u) (data_bit_string u)) \<and>
           length s = min w (unread_bits u)))"
  by (auto simp: unpack_def is_empty_def unread_bits_def)

theorem unpack_contract_witness:
  "unread_bits \<lparr>Unpacker.data = [0xA5], data_bit_string = ''10100101'', bit_index = 4\<rparr> = 4 \<and>
   unpack \<lparr>Unpacker.data = [0xA5], data_bit_string = ''10100101'', bit_index = 4\<rparr> 8 =
     Inr (''0101'', \<lparr>Unpacker.data = [0xA5], data_bit_string = ''10100101'', bit_index = 12\<rparr>) \<and>
   unpack \<lparr>Unpacker.data = [0xA5], data_bit_string = ''10100101'', bit_index = 12\<rparr> 8 =
     Inl AssertionError_no_data_left"
  using unpack_contract [of "\<lparr>Unpacker.data = [0xA5], data_bit_string = ''10100101'', bit_index = 4\<rparr>" 8]
    unpack_contract [of "\<lparr>Unpacker.data = [0xA5], data_bit_string = ''10100101'', bit_index = 12\<rparr>" 8]
  by (simp add: unread_bits_def)

section \<open>Claims about the code table\<close>

text \<open>
  Claim C8. For every input with at least two distinct byte values, whatever the order
  in which the set of its bytes is gone through, \<open>HuffmanTree\<close> is built and its code
  table is prefix-free: for two entries with different symbols neither code is a prefix
  of the other. The table has one entry for each byte value of the input.
\<close>

theorem code_table_prefix_free:
  assumes "set_iteration symbols d" and "2 \<le> card (set d)"
  shows "\<exists>tree. HuffmanTree_init symbols d = Inr tree \<and>
           fst ` set (HuffmanTree_to_dict tree) = set d \<and>
           (\<forall>(s1, c1) \<in> set (HuffmanTree_to_dict tree). \<forall>(s2, c2) \<in> set (HuffmanTree_to_dict tree).
              s1 \<noteq> s2 \<longrightarrow> \<not> prefix c1 c2 \<and> \<not> prefix c2 c1)"
proof -
  have "length symbols = card (set d)"
    using assms(1) by (rule set_iteration_length)
  with assms(2) have "2 \<le> length symbols" by simp
  from HuffmanTree_table [OF assms(1) this]
  obtain tree where tree: "HuffmanTree_init symbols d = Inr tree"
    "fst ` set (HuffmanTree_to_dict tree) = set d"
    by (elim exE conjE)
  have "\<not> prefix c1 c2 \<and> \<not> prefix c2 c1"
    if "(s1, c1) \<in> set (HuffmanTree_to_dict tree)" "(s2, c2) \<in> set (HuffmanTree_to_dict tree)"
      "s1 \<noteq> s2" for s1 c1 s2 c2
    using that to_dict_prefix_free [of s1 c1 "root tree" "[]" s2 c2]
      to_dict_prefix_free [of s2 c2 "root tree" "[]" s1 c1]
    by (auto simp: HuffmanTree_to_dict_def)
  with tree show ?thesis by blast
qed

theorem code_table_prefix_free_witness:
  "\<exists>tree. HuffmanTree_init [0x41, 0x42, 0x43] [0x41, 0x42, 0x41, 0x43] = Inr tree \<and>
     fst ` set (HuffmanTree_to_dict tree) = {0x41, 0x42, 0x43}"
proof -
  have "set_iteration [0x41, 0x42, 0x43] [0x41, 0x42, 0x41, 0x43]"
    by (auto simp: set_iteration_def)
  moreover have "card (set [0x41, 0x42, 0x41, 0x43 :: byte]) = 3"
    using length_remdups_card_conv [of "[0x41, 0x42, 0x41, 0x43 :: byte]"] by simp
  ultimately show ?thesis
    using code_table_prefix_free [of "[0x41, 0x42, 0x43]" "[0x41, 0x42, 0x41, 0x43]"]
    by auto
qed

text \<open>
  Claim C9. For the empty input the set of bytes is empty, \<open>nodes[0]\<close> raises
  \<open>IndexError\<close> in \<open>HuffmanTree.__init__\<close>, and the program writes no output.
\<close>

theorem empty_input_fails:
  "set_iteration [] [] \<and> main_compress [] [] = Inl IndexError"
  by (simp add: set_iteration_def main_compress_empty)

text \<open>
  Claim C2, on the code. For an input of one repeated byte value the tree is a single
  leaf, \<open>to_dict\<close> gives that symbol the empty code and not the code \<open>0\<close>, and
  \<open>compress\<close> raises \<open>ValueError\<close> at \<open>int('', 2)\<close>: there is no blob.
\<close>

theorem single_symbol_input_fails:
  "HuffmanTree_init [0x41] [0x41, 0x41, 0x41] =
     Inr \<lparr>HuffmanTree.data = [0x41, 0x41, 0x41], root = Node (Some 0x41) 3 None None\<rparr> \<and>
   HuffmanTree_to_dict \<lparr>HuffmanTree.data = [0x41, 0x41, 0x41], root = Node (Some 0x41) 3 None None\<rparr> =
     [(0x41, [])] \<and>
   main_compress [0x41] [0x41, 0x41, 0x41] = Inl ValueError"
proof -
  have count: "count_list [0x41, 0x41, 0x41] (0x41 :: byte) = 3"
    by simp
  have "HuffmanTree_loop [Node (Some 0x41) 3 None None] = Inr [Node (Some 0x41) 3 None None]"
    by (simp add: HuffmanTree_loop.simps)
  then have "HuffmanTree_init [0x41] [0x41, 0x41, 0x41] =
      Inr \<lparr>HuffmanTree.data = [0x41, 0x41, 0x41], root = Node (Some 0x41) 3 None None\<rparr>"
    by (simp add: HuffmanTree_init_def count del: count_list.simps)
  then show ?thesis
    by (simp add: HuffmanTree_to_dict_def main_compress_single)
qed

section \<open>Claims about the container\<close>

text \<open>
  Claim C5, as stated, promises a blob for every non-empty input. It does not hold: the
  input length must fit the 32-bit field. For 4294967296 bytes, of two values,
  \<open>pack(len(self.data), 32)\<close> fails and there is no blob.
\<close>

theorem compress_layout_counterexample:
  "main_compress [0x00, 0x01] (replicate (2 ^ 32) 0x00 @ [0x01]) =
     Inl (AssertionError_does_not_fit (2 ^ 32 + 1) 32)"
proof -
  have "set_iteration [0x00, 0x01] (replicate (2 ^ 32) 0x00 @ [0x01])"
    by (auto simp: set_iteration_def)
  moreover have "card (set (replicate (2 ^ 32) (0x00 :: byte) @ [0x01])) = 2"
    by simp
  moreover have "length (replicate (2 ^ 32) (0x00 :: byte) @ [0x01]) = 2 ^ 32 + 1"
    by simp
  ultimately show ?thesis
    using main_compress_too_long [of "[0x00, 0x01]" "replicate (2 ^ 32) 0x00 @ [0x01]"]
    by simp
qed

text \<open>
  Claim C5, amended. For every input with at least two distinct byte values and fewer
  than \<open>2 ^ 32\<close> bytes, \<open>compress\<close> returns a blob whose bits are: 8 bits holding the
  number of distinct symbols minus 1; for each entry of the code table, in its order, the
  symbol in 8 bits, the code length in 8 bits and the code, which is its value written
  in that many bits; 32 bits holding the length of the input; the codes of the bytes of
  the input in their order; and fewer than 8 zero bits that fill the last byte.
\<close>

theorem compress_layout:
  assumes "set_iteration symbols d" and "2 \<le> card (set d)" and "length d < 2 ^ 32"
  shows "\<exists>tree blob. HuffmanTree_init symbols d = Inr tree \<and> compress tree = Inr blob \<and>
           length (HuffmanTree_to_dict tree) = card (set d) \<and>
           concat (map format_08b blob) =
             bin_digits 8 (int (card (set d)) - 1) @
             header_bits (HuffmanTree_to_dict tree) @
             bin_digits 32 (int (length d)) @
             payload_bits (HuffmanTree_to_dict tree) d @
             replicate (8 * length blob - length (blob_bits (HuffmanTree_to_dict tree) d)) (CHR ''0'') \<and>
           8 * length blob - length (blob_bits (HuffmanTree_to_dict tree) d) < 8 \<and>
           length (blob_bits (HuffmanTree_to_dict tree) d) \<le> 8 * length blob \<and>
           (\<forall>(s, c) \<in> set (HuffmanTree_to_dict tree).
              length c < 256 \<and> int_base2 c = Inr (bin_value c) \<and>
              bin_digits (length c) (int (bin_value c)) = c) \<and>
           (\<forall>s \<in> set d. map_of (HuffmanTree_to_dict tree) s = Some (code_of (HuffmanTree_to_dict tree) s))"
proof -
  from main_compress_result [OF assms]
  obtain tree p where tree: "HuffmanTree_init symbols d = Inr tree"
    and ok: "code_table_ok (HuffmanTree_to_dict tree)"
    and keys: "fst ` set (HuffmanTree_to_dict tree) = set d"
    and n: "length (HuffmanTree_to_dict tree) = card (set d)"
    and blob: "compress tree = Inr (fst (flush p))"
    and bits: "Packer_bits p = blob_bits (HuffmanTree_to_dict tree) d"
    by (elim exE conjE)
  let ?dict = "HuffmanTree_to_dict tree"
  define L where "L = length (blob_bits ?dict d)"
  have L: "bit_length p = L"
    using bits length_Packer_bits [of p] by (simp add: L_def)
  have size: "8 * length (fst (flush p)) = L + pad_bits_of L"
    using flush_length [of p] by (simp add: L)
  have pad: "pad_bits_of L < 8"
    by (simp add: pad_bits_of_def)
  have layout: "concat (map format_08b (fst (flush p))) =
      blob_bits ?dict d @ replicate (pad_bits_of L) (CHR ''0'')"
    using flush_digits [of p] bits by (simp add: L Packer_bits_def)
  have entries: "length c < 256 \<and> int_base2 c = Inr (bin_value c) \<and>
      bin_digits (length c) (int (bin_value c)) = c" if "(s, c) \<in> set ?dict" for s c
  proof -
    from ok that have "c \<noteq> []" "binary c" "length c < 256"
      by (auto simp: code_table_ok_def list_all_iff)
    then show ?thesis
      by (simp add: int_base2_eq bin_digits_bin_value)
  qed
  have codes: "map_of ?dict s = Some (code_of ?dict s)" if "s \<in> set d" for s
    using code_table_lookup [OF ok, of s] that keys by (auto simp: code_of_def)
  have pad_eq: "8 * length (fst (flush p)) - L = pad_bits_of L"
    using size by simp
  have bits_eq: "blob_bits ?dict d =
      bin_digits 8 (int (card (set d)) - 1) @ header_bits ?dict @
      bin_digits 32 (int (length d)) @ payload_bits ?dict d"
    using n by (simp add: blob_bits_def)
  show ?thesis
  proof (intro exI [of _ tree] exI [of _ "fst (flush p)"] conjI)
    show "HuffmanTree_init symbols d = Inr tree" by fact
    show "compress tree = Inr (fst (flush p))" by fact
    show "length ?dict = card (set d)" by fact
    show "concat (map format_08b (fst (flush p))) =
        bin_digits 8 (int (card (set d)) - 1) @ header_bits ?dict @
        bin_digits 32 (int (length d)) @ payload_bits ?dict d @
        replicate (8 * length (fst (flush p)) - length (blob_bits ?dict d)) (CHR ''0'')"
      using layout bits_eq pad_eq by (simp add: L_def)
    show "8 * length (fst (flush p)) - length (blob_bits ?dict d) < 8"
      using pad pad_eq by (simp add: L_def)
    show "length (blob_bits ?dict d) \<le> 8 * length (fst (flush p))"
      using size by (simp add: L_def)
    show "\<forall>(s, c) \<in> set ?dict. length c < 256 \<and> int_base2 c = Inr (bin_value c) \<and>
        bin_digits (length c) (int (bin_value c)) = c"
      using entries by blast
    show "\<forall>s \<in> set d. map_of ?dict s = Some (code_of ?dict s)"
      using codes by blast
  qed
qed

theorem compress_layout_witness:
  "\<exists>tree blob. HuffmanTree_init [0x41, 0x42] [0x41, 0x42, 0x41] = Inr tree \<and>
     compress tree = Inr blob \<and> length (HuffmanTree_to_dict tree) = 2 \<and>
     concat (map format_08b blob) =
       ''00000001'' @ header_bits (HuffmanTree_to_dict tree) @
       ''00000000000000000000000000000011'' @
       payload_bits (HuffmanTree_to_dict tree) [0x41, 0x42, 0x41] @
       replicate (8 * length blob - length (blob_bits (HuffmanTree_to_dict tree) [0x41, 0x42, 0x41]))
         (CHR ''0'')"
proof -
  have "set_iteration [0x41, 0x42] [0x41, 0x42, 0x41]"
    by (auto simp: set_iteration_def)
  moreover have "card (set [0x41, 0x42, 0x41 :: byte]) = 2"
    using length_remdups_card_conv [of "[0x41, 0x42, 0x41 :: byte]"] by simp
  moreover have "bin_digits 8 1 = ''00000001''"
    "bin_digits 32 3 = ''00000000000000000000000000000011''"
    by code_simp+
  ultimately show ?thesis
    using compress_layout [of "[0x41, 0x42]" "[0x41, 0x42, 0x41]"]
    by auto
qed

section \<open>Claims about decompression\<close>

text \<open>
  Claim C1, as stated, promises the round trip for every non-empty input. It does not
  hold: the input length must fit the 32-bit field. For 4294967296 bytes, of two values,
  \<open>compress\<close> fails at \<open>pack(len(self.data), 32)\<close>, so there is nothing to decompress.
\<close>

theorem roundtrip_counterexample:
  "main_compress [0x41, 0x42] (replicate (2 ^ 32 - 1) 0x41 @ [0x42]) =
     Inl (AssertionError_does_not_fit (2 ^ 32) 32)"
proof -
  have "set_iteration [0x41, 0x42] (replicate (2 ^ 32 - 1) 0x41 @ [0x42])"
    by (auto simp: set_iteration_def)
  moreover have "card (set (replicate (2 ^ 32 - 1) (0x41 :: byte) @ [0x42])) = 2"
    by simp
  moreover have "length (replicate (2 ^ 32 - 1) (0x41 :: byte) @ [0x42]) = 2 ^ 32"
    by simp
  ultimately show ?thesis
    using main_compress_too_long [of "[0x41, 0x42]" "replicate (2 ^ 32 - 1) 0x41 @ [0x42]"]
    by simp
qed

text \<open>
  Claim C1, amended. For every input with at least two distinct byte values and fewer
  than \<open>2 ^ 32\<close> bytes, whatever the order in which the set of its bytes is gone
  through, compression returns a blob and \<open>decompress\<close> of that blob returns the input.
\<close>

theorem roundtrip:
  assumes "set_iteration symbols d" and "2 \<le> card (set d)" and "length d < 2 ^ 32"
  shows "\<exists>blob. main_compress symbols d = Inr blob \<and> decompress blob = Inr d"
proof -
  from main_compress_result [OF assms]
  obtain tree p where ok: "code_table_ok (HuffmanTree_to_dict tree)"
    and keys: "fst ` set (HuffmanTree_to_dict tree) = set d"
    and blob: "main_compress symbols d = Inr (fst (flush p))"
    and bits: "Packer_bits p = blob_bits (HuffmanTree_to_dict tree) d"
    by (elim exE conjE)
  have "concat (map format_08b (fst (flush p))) =
      blob_bits (HuffmanTree_to_dict tree) d @ replicate (pad_bits_of (bit_length p)) (CHR ''0'')"
    using flush_digits [of p] bits by (simp add: Packer_bits_def)
  with ok assms(3) have "decompress (fst (flush p)) = Inr d"
    using keys by (intro decompress_blob) simp_all
  with blob show ?thesis by blast
qed

theorem roundtrip_witness:
  "main_compress [0x41, 0x42, 0x43, 0x44]
     [0x41, 0x41, 0x41, 0x41, 0x41, 0x42, 0x42, 0x42, 0x42, 0x43, 0x43, 0x43, 0x44, 0x44] =
     Inr [3, 68, 2, 16, 192, 148, 32, 41, 4, 11, 0, 0, 0, 14, 255, 234, 149, 0] \<and>
   decompress [3, 68, 2, 16, 192, 148, 32, 41, 4, 11, 0, 0, 0, 14, 255, 234, 149, 0] =
     Inr [0x41, 0x41, 0x41, 0x41, 0x41, 0x42, 0x42, 0x42, 0x42, 0x43, 0x43, 0x43, 0x44, 0x44]"
proof -
  let ?d = "[0x41, 0x41, 0x41, 0x41, 0x41, 0x42, 0x42, 0x42, 0x42, 0x43, 0x43, 0x43, 0x44, 0x44 :: byte]"
  have "set_iteration [0x41, 0x42, 0x43, 0x44] ?d"
    by (auto simp: set_iteration_def)
  moreover have "card (set ?d) = 4"
    using length_remdups_card_conv [of ?d] by simp
  moreover have "main_compress [0x41, 0x42, 0x43, 0x44] ?d =
      Inr [3, 68, 2, 16, 192, 148, 32, 41, 4, 11, 0, 0, 0, 14, 255, 234, 149, 0]"
    by code_simp
  ultimately show ?thesis
    using roundtrip [of "[0x41, 0x42, 0x43, 0x44]" ?d]
    by auto
qed

text \<open>
  Claim C4. For every blob whose header is read, and every state the payload loop goes
  through with symbols still to read: if the unpacker has no bit left, or the scratch bit
  string is longer than 255 bits, then \<open>decompress\<close> fails. The failure is the
  unpacker's no-data-left assertion: a code of the table has at most 255 bits, so a
  longer scratch string never matches and the loop runs into the end of the input.
\<close>

theorem decompress_malformed:
  assumes "decompress_header blob = Inr (coding_dict, u0, n0)"
    and "loop_reaches coding_dict (u0, n0, [], []) (u, n, out, bs)"
    and "n \<noteq> 0"
    and "is_empty u \<or> 255 < length bs"
  shows "decompress blob = Inl AssertionError_no_data_left"
proof -
  have keys: "\<forall>c\<in>fst ` set coding_dict. length c < 256"
    using assms(1) by (rule decompress_header_key_length)
  have "decompress blob = decode_loop coding_dict (u0, n0, [], [])"
    using assms(1) by (simp add: decompress_def)
  also have "\<dots> = decode_loop coding_dict (u, n, out, bs)"
    using assms(2) by (rule loop_reaches_result)
  also have "\<dots> = Inl AssertionError_no_data_left"
  proof (cases "is_empty u")
    case True
    with assms(3) show ?thesis by (rule decode_loop_exhausted)
  next
    case False
    with assms(4) have "255 < length bs" by simp
    with assms(3) show ?thesis using keys by (rule decode_loop_stuck)
  qed
  finally show ?thesis .
qed

theorem decompress_malformed_witness:
  "decompress_header [0x00, 0x41, 0x08, 0xFF, 0x00, 0x00, 0x00, 0x01] =
     Inr ([(''11111111'', [0x41])],
          \<lparr>Unpacker.data = [0x00, 0x41, 0x08, 0xFF, 0x00, 0x00, 0x00, 0x01],
             data_bit_string = ''0000000001000001000010001111111100000000000000000000000000000001'',
             bit_index = 64\<rparr>, 1) \<and>
   decompress [0x00, 0x41, 0x08, 0xFF, 0x00, 0x00, 0x00, 0x01] = Inl AssertionError_no_data_left"
proof -
  let ?u = "\<lparr>Unpacker.data = [0x00, 0x41, 0x08, 0xFF, 0x00, 0x00, 0x00, 0x01],
             data_bit_string = ''0000000001000001000010001111111100000000000000000000000000000001'',
             bit_index = 64\<rparr>"
  have header: "decompress_header [0x00, 0x41, 0x08, 0xFF, 0x00, 0x00, 0x00, 0x01] =
      Inr ([(''11111111'', [0x41])], ?u, 1)"
    by code_simp
  have "loop_reaches [(''11111111'', [0x41])] (?u, 1, [], []) (?u, 1, [], [])"
    by (rule loop_reaches.start)
  moreover have "is_empty ?u"
    by (simp add: is_empty_def)
  ultimately show ?thesis
    using header decompress_malformed [OF header, of ?u 1 "[]" "[]"]
    by simp
qed

section \<open>Claims about the length of the input\<close>

text \<open>
  Claim C10, on the code. The claim has every input of at least \<open>2 ^ 32\<close> bytes fail
  with the does-not-fit assertion of \<open>pack(len(self.data), 32)\<close>. For 4294967296
  copies of one byte value the code does not get that far: the table is \<open>{65: ''}\<close>
  and \<open>compress\<close> raises \<open>ValueError\<close> at \<open>int('', 2)\<close> in the loop over the
  code table, before it packs the length.
\<close>

theorem long_single_symbol_input_fails:
  "length (replicate (2 ^ 32) (0x41 :: byte)) = 2 ^ 32 \<and>
   set_iteration [0x41] (replicate (2 ^ 32) 0x41) \<and>
   main_compress [0x41] (replicate (2 ^ 32) 0x41) = Inl ValueError"
  by (simp add: main_compress_single set_iteration_def)

text \<open>
  The rest of claim C10 holds. Packing the length of the input in 32 bits succeeds
  exactly when the input has fewer than \<open>2 ^ 32\<close> bytes. For every input of at least
  \<open>2 ^ 32\<close> bytes with at least two distinct byte values compression fails with the
  does-not-fit assertion of that call; for every input of fewer than \<open>2 ^ 32\<close> bytes
  compression never fails with a does-not-fit assertion.
\<close>

theorem input_length_limit:
  assumes "set_iteration symbols d"
  shows "((\<exists>p'. pack p (int (length d)) 32 = Inr p') \<longleftrightarrow> length d < 2 ^ 32) \<and>
         (2 ^ 32 \<le> length d \<and> 2 \<le> card (set d) \<longrightarrow>
            main_compress symbols d = Inl (AssertionError_does_not_fit (int (length d)) 32)) \<and>
         (length d < 2 ^ 32 \<longrightarrow>
            (\<forall>v w. main_compress symbols d \<noteq> Inl (AssertionError_does_not_fit v w)))"
proof (intro conjI impI allI)
  have "int (length d) < 2 ^ 32 \<longleftrightarrow> length d < 2 ^ 32"
    by (metis of_nat_less_iff of_nat_numeral of_nat_power)
  then have "int (length d) AND (2 ^ 32 - 1) = int (length d) \<longleftrightarrow> length d < 2 ^ 32"
    by (simp only: fits_iff2) simp
  then show "(\<exists>p'. pack p (int (length d)) 32 = Inr p') \<longleftrightarrow> length d < 2 ^ 32"
    by (auto simp: pack_def)
next
  assume "2 ^ 32 \<le> length d \<and> 2 \<le> card (set d)"
  with assms show "main_compress symbols d = Inl (AssertionError_does_not_fit (int (length d)) 32)"
    by (simp add: main_compress_too_long)
next
  fix v w
  assume short: "length d < 2 ^ 32"
  have len: "length symbols = card (set d)"
    using assms by (rule set_iteration_length)
  consider "symbols = []" | a where "symbols = [a]" | "2 \<le> length symbols"
    by (cases symbols rule: list.exhaust; cases "tl symbols") auto
  then show "main_compress symbols d \<noteq> Inl (AssertionError_does_not_fit v w)"
  proof cases
    case 1
    then show ?thesis by (simp add: main_compress_empty)
  next
    case 2
    then show ?thesis by (simp add: main_compress_single)
  next
    case 3
    with len have "2 \<le> card (set d)" by simp
    from main_compress_result [OF assms this short] show ?thesis by auto
  qed
qed

theorem input_length_limit_witness:
  "main_compress [0x41, 0x42] (replicate (2 ^ 32 - 1) 0x41 @ [0x42, 0x42]) =
     Inl (AssertionError_does_not_fit (2 ^ 32 + 1) 32) \<and>
   (\<exists>p'. pack Packer_init (int (length [0x41, 0x42 :: byte])) 32 = Inr p')"
proof -
  let ?d = "replicate (2 ^ 32 - 1) (0x41 :: byte) @ [0x42, 0x42]"
  have "set_iteration [0x41, 0x42] ?d"
    by (auto simp: set_iteration_def)
  moreover have "card (set ?d) = 2"
    by simp
  moreover have "length ?d = 2 ^ 32 + 1"
    by simp
  moreover have "set_iteration [0x41, 0x42] [0x41, 0x42]"
    by (simp add: set_iteration_def)
  ultimately show ?thesis
    using input_length_limit [of "[0x41, 0x42]" ?d Packer_init]
      input_length_limit [of "[0x41, 0x42]" "[0x41, 0x42]" Packer_init]
    by simp
qed

end
